theory Spec2Isabelle
  imports Main
begin

section \<open>The lexer of analisador.py\<close>

text \<open>
  The development embeds \<^verbatim>\<open>src/analisador.py\<close>: the token kinds, the token
  record, the cursor of class \<^verbatim>\<open>Lexer\<close> and its methods. A Python \<^verbatim>\<open>str\<close> is a
  sequence of code points; the model takes the code points below 256, which is what an
  Isabelle \<^typ>\<open>char\<close> holds, so a \<^typ>\<open>string\<close> is a Python string over that
  alphabet. An exception is a value of type \<open>error\<close> on the left of a sum.
\<close>

subsection \<open>Characters\<close>

text \<open>The characters the source names by an escape, written by their code.\<close>

abbreviation TAB :: char where "TAB \<equiv> CHR 0x09"
abbreviation LF :: char where "LF \<equiv> CHR 0x0A"
abbreviation DQUOTE :: char where "DQUOTE \<equiv> CHR 0x22"
abbreviation SQUOTE :: char where "SQUOTE \<equiv> CHR 0x27"
abbreviation BACKSLASH :: char where "BACKSLASH \<equiv> CHR 0x5C"

text \<open>
  Python's \<^verbatim>\<open>str.isdigit\<close>, \<^verbatim>\<open>str.isalpha\<close> and \<^verbatim>\<open>str.isalnum\<close> on one character,
  for the code points below 256. \<^verbatim>\<open>isdigit\<close> holds of the decimal digits and of the
  superscript digits U+00B2, U+00B3, U+00B9; \<^verbatim>\<open>isalpha\<close> of the letters (general
  categories L*): A-Z, a-z, U+00AA, U+00B5, U+00BA, U+00C0-U+00D6, U+00D8-U+00F6,
  U+00F8-U+00FF; \<^verbatim>\<open>isalnum\<close> of every character that is alphabetic, decimal, a digit
  or numeric, the last adding the fractions U+00BC-U+00BE.
\<close>

definition isdigit :: "char \<Rightarrow> bool" where
  "isdigit c = (let n = (of_char c :: nat) in
     (48 \<le> n \<and> n \<le> 57) \<or> n = 178 \<or> n = 179 \<or> n = 185)"

definition isalpha :: "char \<Rightarrow> bool" where
  "isalpha c = (let n = (of_char c :: nat) in
     (65 \<le> n \<and> n \<le> 90) \<or> (97 \<le> n \<and> n \<le> 122) \<or> n = 170 \<or> n = 181 \<or> n = 186 \<or>
     (192 \<le> n \<and> n \<le> 214) \<or> (216 \<le> n \<and> n \<le> 246) \<or> (248 \<le> n \<and> n \<le> 255))"

definition isnumeric :: "char \<Rightarrow> bool" where
  "isnumeric c = (let n = (of_char c :: nat) in
     (48 \<le> n \<and> n \<le> 57) \<or> n = 178 \<or> n = 179 \<or> n = 185 \<or> (188 \<le> n \<and> n \<le> 190))"

definition isalnum :: "char \<Rightarrow> bool" where
  "isalnum c = (isalpha c \<or> isdigit c \<or> isnumeric c)"

subsection \<open>Tokens\<close>

datatype TokenType =
    NUMBER | STRING | IDENTIFIER
  | PLUS | MINUS | MULTIPLY | DIVIDE
  | EQUAL | NOT_EQUAL | LESS_THAN | GREATER_THAN | LESS_EQUAL | GREATER_EQUAL
  | ASSIGN
  | LEFT_PAREN | RIGHT_PAREN | LEFT_BRACKET | RIGHT_BRACKET | COMMA
  | IF | WHILE | FOR | PRINT
  | NEWLINE | EOF | WHITESPACE

text \<open>
  The dataclass \<^verbatim>\<open>Token\<close>; its fields \<^verbatim>\<open>type\<close>, \<^verbatim>\<open>value\<close>, \<^verbatim>\<open>line\<close>, \<^verbatim>\<open>column\<close>
  carry the prefix \<open>tok_\<close> here, the cursor below having a line and a column of its own.
  Lines, columns and offsets start at 0 or 1 and are only ever incremented, so they are
  natural numbers.
\<close>

record Token =
  tok_type :: TokenType
  tok_value :: string
  tok_line :: nat
  tok_column :: nat

text \<open>
  The two \<^verbatim>\<open>SyntaxError\<close>s the source raises, with the line and column their messages
  print, and the \<^verbatim>\<open>TypeError\<close> that Python raises when \<^verbatim>\<open>read_string\<close> evaluates
  \<^verbatim>\<open>result += self.current_char()\<close> with \<^verbatim>\<open>current_char()\<close> being \<^verbatim>\<open>None\<close>.
\<close>

datatype error =
    UnterminatedString nat nat
  | UnexpectedCharacter char nat nat
  | TypeError

subsection \<open>The cursor\<close>

record Lexer =
  "text" :: string
  pos :: nat
  line :: nat
  column :: nat

definition Lexer_init :: "string \<Rightarrow> Lexer" where
  "Lexer_init t = \<lparr>text = t, pos = 0, line = 1, column = 1\<rparr>"

definition "keywords" :: "string \<rightharpoonup> TokenType" where
  "keywords = map_of [(''if'', IF), (''while'', WHILE), (''for'', FOR), (''print'', PRINT)]"

definition current_char :: "Lexer \<Rightarrow> char option" where
  "current_char s = (if pos s \<ge> length (text s) then None else Some (text s ! pos s))"

definition peek_char :: "Lexer \<Rightarrow> nat \<Rightarrow> char option" where
  "peek_char s offset =
     (let peek_pos = pos s + offset
      in if peek_pos \<ge> length (text s) then None else Some (text s ! peek_pos))"

definition advance :: "Lexer \<Rightarrow> Lexer" where
  "advance s =
     (if pos s < length (text s) \<and> text s ! pos s = LF
      then s\<lparr>pos := pos s + 1, line := line s + 1, column := 1\<rparr>
      else s\<lparr>pos := pos s + 1, column := column s + 1\<rparr>)"

text \<open>Facts the termination proofs of the loops need.\<close>

lemma current_char_Some_pos: "current_char s = Some c \<Longrightarrow> pos s < length (text s)"
  by (simp add: current_char_def split: if_splits)

lemma text_advance [simp]: "text (advance s) = text s"
  by (simp add: advance_def)

lemma pos_advance [simp]: "pos (advance s) = Suc (pos s)"
  by (simp add: advance_def)

lemma advance_decreases:
  "current_char s = Some c \<Longrightarrow>
     length (text (advance s)) - pos (advance s) < length (text s) - pos s"
  using current_char_Some_pos [of s c] by simp

subsection \<open>The readers\<close>

text \<open>\<^verbatim>\<open>while self.current_char() and self.current_char() in ' \t': self.advance()\<close>\<close>

function skip_whitespace :: "Lexer \<Rightarrow> Lexer" where
  "skip_whitespace s =
     (case current_char s of
        None \<Rightarrow> s
      | Some c \<Rightarrow> if c = CHR '' '' \<or> c = TAB then skip_whitespace (advance s) else s)"
  by pat_completeness auto
termination
  by (relation "measure (\<lambda>s. length (text s) - pos s)") (auto dest: advance_decreases)

text \<open>
  The loop that \<^verbatim>\<open>read_number\<close> runs twice, before and after the decimal point:
  \<^verbatim>\<open>while self.current_char() and self.current_char().isdigit()\<close>, appending to
  \<^verbatim>\<open>result\<close>.
\<close>

function read_digits :: "Lexer \<Rightarrow> string \<Rightarrow> Lexer \<times> string" where
  "read_digits s result =
     (case current_char s of
        None \<Rightarrow> (s, result)
      | Some c \<Rightarrow> if isdigit c then read_digits (advance s) (result @ [c]) else (s, result))"
  by pat_completeness auto
termination
  by (relation "measure (\<lambda>(s, r). length (text s) - pos s)") (auto dest: advance_decreases)

definition read_number :: "Lexer \<Rightarrow> Token \<times> Lexer" where
  "read_number s =
     (let start_column = column s;
          (s1, r1) = read_digits s [];
          (s2, r2) = (if current_char s1 = Some CHR ''.''
                      then read_digits (advance s1) (r1 @ [CHR ''.''])
                      else (s1, r1))
      in (\<lparr>tok_type = NUMBER, tok_value = r2, tok_line = line s2, tok_column = start_column\<rparr>,
          s2))"

text \<open>
  The decoding of the character after a backslash, the \<^verbatim>\<open>if\<close>/\<^verbatim>\<open>elif\<close> chain of
  \<^verbatim>\<open>read_string\<close>. \<^verbatim>\<open>quote_char\<close> is what \<^verbatim>\<open>current_char()\<close> returned on entry, an
  optional character.
\<close>

definition decode_escape :: "char option \<Rightarrow> char \<Rightarrow> char" where
  "decode_escape quote_char c =
     (if c = CHR ''n'' then LF
      else if c = CHR ''t'' then TAB
      else if c = BACKSLASH then BACKSLASH
      else if Some c = quote_char then the quote_char
      else c)"

text \<open>
  The \<^verbatim>\<open>while\<close> loop of \<^verbatim>\<open>read_string\<close>. After a backslash the source advances and
  appends the decoding of \<^verbatim>\<open>current_char()\<close>; at the end of the text that is
  \<^verbatim>\<open>result += None\<close>, a \<^verbatim>\<open>TypeError\<close>.
\<close>

function read_string_loop :: "char option \<Rightarrow> Lexer \<Rightarrow> string \<Rightarrow> error + (Lexer \<times> string)" where
  "read_string_loop quote_char s result =
     (case current_char s of
        None \<Rightarrow> Inr (s, result)
      | Some c \<Rightarrow>
          if Some c = quote_char then Inr (s, result)
          else if c = BACKSLASH then
            (case current_char (advance s) of
               None \<Rightarrow> Inl TypeError
             | Some d \<Rightarrow>
                 read_string_loop quote_char (advance (advance s))
                   (result @ [decode_escape quote_char d]))
          else read_string_loop quote_char (advance s) (result @ [c]))"
  by pat_completeness auto
termination
  by (relation "measure (\<lambda>(q, s, r). length (text s) - pos s)")
     (auto dest: current_char_Some_pos)

definition read_string :: "Lexer \<Rightarrow> error + (Token \<times> Lexer)" where
  "read_string s =
     (let start_column = column s;
          quote_char = current_char s
      in case read_string_loop quote_char (advance s) [] of
           Inl e \<Rightarrow> Inl e
         | Inr (s1, result) \<Rightarrow>
             if current_char s1 = quote_char
             then (let s2 = advance s1
                   in Inr (\<lparr>tok_type = STRING, tok_value = result, tok_line = line s2,
                             tok_column = start_column\<rparr>, s2))
             else Inl (UnterminatedString (line s1) start_column))"

text \<open>
  The loop of \<^verbatim>\<open>read_identifier\<close>:
  \<^verbatim>\<open>while self.current_char() and (self.current_char().isalnum() or self.current_char() == '_')\<close>.
\<close>

function read_identifier_loop :: "Lexer \<Rightarrow> string \<Rightarrow> Lexer \<times> string" where
  "read_identifier_loop s result =
     (case current_char s of
        None \<Rightarrow> (s, result)
      | Some c \<Rightarrow>
          if isalnum c \<or> c = CHR ''_''
          then read_identifier_loop (advance s) (result @ [c])
          else (s, result))"
  by pat_completeness auto
termination
  by (relation "measure (\<lambda>(s, r). length (text s) - pos s)") (auto dest: advance_decreases)

definition read_identifier :: "Lexer \<Rightarrow> Token \<times> Lexer" where
  "read_identifier s =
     (let start_column = column s;
          (s1, result) = read_identifier_loop s [];
          token_type = (case keywords result of Some k \<Rightarrow> k | None \<Rightarrow> IDENTIFIER)
      in (\<lparr>tok_type = token_type, tok_value = result, tok_line = line s1,
            tok_column = start_column\<rparr>, s1))"


text \<open>The readers keep the text and never move the cursor backwards.\<close>

declare skip_whitespace.simps [simp del]
declare read_digits.simps [simp del]
declare read_string_loop.simps [simp del]
declare read_identifier_loop.simps [simp del]

lemma skip_whitespace_mono:
  "text (skip_whitespace s) = text s \<and> pos s \<le> pos (skip_whitespace s)"
proof (induction s rule: skip_whitespace.induct)
  case (1 s)
  show ?case
  proof (cases "current_char s")
    case None
    then show ?thesis by (subst (1 2) skip_whitespace.simps) simp
  next
    case (Some c)
    with 1 [OF Some] show ?thesis
      by (subst (1 2) skip_whitespace.simps) auto
  qed
qed

lemma read_digits_mono:
  "read_digits s r = (s', r') \<Longrightarrow> text s' = text s \<and> pos s \<le> pos s'"
proof (induction s r rule: read_digits.induct)
  case (1 s r)
  show ?case
  proof (cases "current_char s")
    case None
    with "1.prems" show ?thesis by (subst (asm) read_digits.simps) simp
  next
    case (Some c)
    show ?thesis
    proof (cases "isdigit c")
      case True
      from "1.prems" Some True have "read_digits (advance s) (r @ [c]) = (s', r')"
        by (subst (asm) read_digits.simps) simp
      from "1.IH" [OF Some True this] show ?thesis by simp
    next
      case False
      with "1.prems" Some show ?thesis by (subst (asm) read_digits.simps) simp
    qed
  qed
qed

lemma read_identifier_loop_mono:
  "read_identifier_loop s r = (s', r') \<Longrightarrow> text s' = text s \<and> pos s \<le> pos s'"
proof (induction s r rule: read_identifier_loop.induct)
  case (1 s r)
  show ?case
  proof (cases "current_char s")
    case None
    with "1.prems" show ?thesis by (subst (asm) read_identifier_loop.simps) simp
  next
    case (Some c)
    show ?thesis
    proof (cases "isalnum c \<or> c = CHR ''_''")
      case True
      from "1.prems" Some True have "read_identifier_loop (advance s) (r @ [c]) = (s', r')"
        by (subst (asm) read_identifier_loop.simps) simp
      from "1.IH" [OF Some True this] show ?thesis by simp
    next
      case False
      with "1.prems" Some show ?thesis by (subst (asm) read_identifier_loop.simps) simp
    qed
  qed
qed

lemma read_string_loop_mono:
  "read_string_loop q s r = Inr (s', r') \<Longrightarrow> text s' = text s \<and> pos s \<le> pos s'"
proof (induction q s r rule: read_string_loop.induct)
  case (1 q s r)
  show ?case
  proof (cases "current_char s")
    case None
    with "1.prems" show ?thesis by (subst (asm) read_string_loop.simps) simp
  next
    case (Some c)
    consider (quote) "q = Some c"
      | (esc) "Some c \<noteq> q" "c = BACKSLASH"
      | (plain) "Some c \<noteq> q" "c \<noteq> BACKSLASH" by blast
    then show ?thesis
    proof cases
      case quote
      from "1.prems" show ?thesis
        by (subst (asm) read_string_loop.simps) (simp add: Some quote)
    next
      case esc
      show ?thesis
      proof (cases "current_char (advance s)")
        case None
        with "1.prems" Some esc show ?thesis by (subst (asm) read_string_loop.simps) simp
      next
        case d: (Some d)
        from "1.prems" Some esc d
        have "read_string_loop q (advance (advance s)) (r @ [decode_escape q d]) = Inr (s', r')"
          by (subst (asm) read_string_loop.simps) simp
        from "1.IH"(1) [OF Some esc d this] show ?thesis by simp
      qed
    next
      case plain
      from "1.prems" Some plain
      have "read_string_loop q (advance s) (r @ [c]) = Inr (s', r')"
        by (subst (asm) read_string_loop.simps) simp
      from "1.IH"(2) [OF Some plain this] show ?thesis by simp
    qed
  qed
qed

lemma isalpha_isalnum: "isalpha c \<Longrightarrow> isalnum c"
  by (simp add: isalnum_def)

lemma read_number_progress:
  assumes "current_char s = Some c" "isdigit c" "read_number s = (tok, s')"
  shows "text s' = text s \<and> pos s < pos s'"
proof -
  obtain s1 r1 where a: "read_digits s [] = (s1, r1)" by (cases "read_digits s []")
  from assms(1,2) a have "read_digits (advance s) [c] = (s1, r1)"
    by (subst (asm) read_digits.simps) simp
  from read_digits_mono [OF this] have s1: "text s1 = text s" "pos s < pos s1" by simp_all
  show ?thesis
  proof (cases "current_char s1 = Some CHR ''.''")
    case True
    obtain s2 r2 where b: "read_digits (advance s1) (r1 @ [CHR ''.'']) = (s2, r2)"
      by (cases "read_digits (advance s1) (r1 @ [CHR ''.''])")
    from assms(3) a True b have "s' = s2" by (simp add: read_number_def)
    with read_digits_mono [OF b] s1 show ?thesis by simp
  next
    case False
    with assms(3) a have "s' = s1" by (simp add: read_number_def)
    with s1 show ?thesis by simp
  qed
qed

lemma read_string_progress:
  assumes "read_string s = Inr (tok, s')"
  shows "text s' = text s \<and> pos s < pos s'"
proof -
  from assms obtain s1 r1 where a: "read_string_loop (current_char s) (advance s) [] = Inr (s1, r1)"
    and b: "s' = advance s1"
    by (auto simp: read_string_def Let_def split: sum.splits if_splits)
  from read_string_loop_mono [OF a] b show ?thesis by simp
qed

lemma read_identifier_progress:
  assumes "current_char s = Some c" "isalpha c \<or> c = CHR ''_''" "read_identifier s = (tok, s')"
  shows "text s' = text s \<and> pos s < pos s'"
proof -
  obtain s1 r1 where a: "read_identifier_loop s [] = (s1, r1)"
    by (cases "read_identifier_loop s []")
  from assms(2) have "isalnum c \<or> c = CHR ''_''" by (auto dest: isalpha_isalnum)
  with assms(1) a have "read_identifier_loop (advance s) [c] = (s1, r1)"
    by (subst (asm) read_identifier_loop.simps) simp
  from read_identifier_loop_mono [OF this] have s1: "text s1 = text s" "pos s < pos s1"
    by simp_all
  from assms(3) a have "s' = s1" by (simp add: read_identifier_def Let_def)
  with s1 show ?thesis by simp
qed

subsection \<open>The main loop\<close>

definition single_char_tokens :: "char \<rightharpoonup> TokenType" where
  "single_char_tokens = map_of
     [(CHR ''+'', PLUS), (CHR ''-'', MINUS), (CHR ''*'', MULTIPLY), (CHR ''/'', DIVIDE),
      (CHR ''='', ASSIGN), (CHR ''<'', LESS_THAN), (CHR ''>'', GREATER_THAN),
      (CHR ''('', LEFT_PAREN), (CHR '')'', RIGHT_PAREN),
      (CHR ''['', LEFT_BRACKET), (CHR '']'', RIGHT_BRACKET), (CHR '','', COMMA)]"

text \<open>
  One iteration of the \<^verbatim>\<open>while self.current_char()\<close> loop of \<^verbatim>\<open>tokenize\<close>, entered with
  \<open>c\<close> the current character: the chain of \<^verbatim>\<open>if ...: ...; continue\<close> in the source's
  order, ending in the \<^verbatim>\<open>raise\<close>. The value of a NEWLINE token is the two characters
  backslash and n, as the source writes \<^verbatim>\<open>'\\n'\<close>.
\<close>

definition tokenize_step :: "Lexer \<Rightarrow> Token list \<Rightarrow> char \<Rightarrow> error + (Lexer \<times> Token list)" where
  "tokenize_step s tokens c =
     (if c = CHR '' '' \<or> c = TAB then Inr (skip_whitespace s, tokens)
      else if c = LF then
        Inr (advance s, tokens @ [\<lparr>tok_type = NEWLINE, tok_value = [BACKSLASH, CHR ''n''],
                                    tok_line = line s, tok_column = column s\<rparr>])
      else if isdigit c then
        (case read_number s of (tok, s') \<Rightarrow> Inr (s', tokens @ [tok]))
      else if c = DQUOTE \<or> c = SQUOTE then
        (case read_string s of Inl e \<Rightarrow> Inl e | Inr (tok, s') \<Rightarrow> Inr (s', tokens @ [tok]))
      else if isalpha c \<or> c = CHR ''_'' then
        (case read_identifier s of (tok, s') \<Rightarrow> Inr (s', tokens @ [tok]))
      else if c = CHR ''='' \<and> peek_char s 1 = Some CHR ''='' then
        Inr (advance (advance s), tokens @ [\<lparr>tok_type = EQUAL, tok_value = ''=='',
                                              tok_line = line s, tok_column = column s\<rparr>])
      else if c = CHR ''!'' \<and> peek_char s 1 = Some CHR ''='' then
        Inr (advance (advance s), tokens @ [\<lparr>tok_type = NOT_EQUAL, tok_value = ''!='',
                                              tok_line = line s, tok_column = column s\<rparr>])
      else if c = CHR ''<'' \<and> peek_char s 1 = Some CHR ''='' then
        Inr (advance (advance s), tokens @ [\<lparr>tok_type = LESS_EQUAL, tok_value = ''<='',
                                              tok_line = line s, tok_column = column s\<rparr>])
      else if c = CHR ''>'' \<and> peek_char s 1 = Some CHR ''='' then
        Inr (advance (advance s), tokens @ [\<lparr>tok_type = GREATER_EQUAL, tok_value = ''>='',
                                              tok_line = line s, tok_column = column s\<rparr>])
      else (case single_char_tokens c of
              Some token_type \<Rightarrow>
                Inr (advance s, tokens @ [\<lparr>tok_type = token_type, tok_value = [c],
                                            tok_line = line s, tok_column = column s\<rparr>])
            | None \<Rightarrow> Inl (UnexpectedCharacter c (line s) (column s))))"

lemma tokenize_step_progress:
  assumes "current_char s = Some c" "tokenize_step s tokens c = Inr (s', tokens')"
  shows "text s' = text s \<and> pos s < pos s'"
proof -
  consider (ws) "c = CHR '' '' \<or> c = TAB"
    | (num) "\<not> (c = CHR '' '' \<or> c = TAB)" "c \<noteq> LF" "isdigit c"
    | (str) "\<not> (c = CHR '' '' \<or> c = TAB)" "c \<noteq> LF" "\<not> isdigit c" "c = DQUOTE \<or> c = SQUOTE"
    | (ident) "\<not> (c = CHR '' '' \<or> c = TAB)" "c \<noteq> LF" "\<not> isdigit c" "\<not> (c = DQUOTE \<or> c = SQUOTE)"
        "isalpha c \<or> c = CHR ''_''"
    | (nl) "\<not> (c = CHR '' '' \<or> c = TAB)" "c = LF"
    | (other) "\<not> (c = CHR '' '' \<or> c = TAB)" "c \<noteq> LF" "\<not> isdigit c" "\<not> (c = DQUOTE \<or> c = SQUOTE)"
        "\<not> (isalpha c \<or> c = CHR ''_'')"
    by blast
  then show ?thesis
  proof cases
    case ws
    with assms(2) have s': "s' = skip_whitespace s" by (simp add: tokenize_step_def)
    from assms(1) ws have "skip_whitespace s = skip_whitespace (advance s)"
      by (subst skip_whitespace.simps) auto
    with s' skip_whitespace_mono [of "advance s"] show ?thesis by simp
  next
    case num
    with assms(2) obtain tok where "read_number s = (tok, s')"
      by (auto simp: tokenize_step_def split: prod.splits)
    from read_number_progress [OF assms(1) num(3) this] show ?thesis .
  next
    case str
    with assms(2) obtain tok where "read_string s = Inr (tok, s')"
      by (auto simp: tokenize_step_def split: prod.splits sum.splits)
    from read_string_progress [OF this] show ?thesis .
  next
    case ident
    with assms(2) obtain tok where "read_identifier s = (tok, s')"
      by (auto simp: tokenize_step_def split: prod.splits)
    from read_identifier_progress [OF assms(1) ident(5) this] show ?thesis .
  next
    case nl
    with assms(2) have "s' = advance s" by (simp add: tokenize_step_def)
    then show ?thesis by simp
  next
    case other
    with assms(2) have "s' = advance s \<or> s' = advance (advance s)"
      by (auto simp: tokenize_step_def split: if_splits option.splits)
    then show ?thesis by auto
  qed
qed

function tokenize_loop :: "Lexer \<Rightarrow> Token list \<Rightarrow> error + (Lexer \<times> Token list)" where
  "tokenize_loop s tokens =
     (case current_char s of
        None \<Rightarrow> Inr (s, tokens)
      | Some c \<Rightarrow>
          (case tokenize_step s tokens c of
             Inl e \<Rightarrow> Inl e
           | Inr (s', tokens') \<Rightarrow> tokenize_loop s' tokens'))"
  by pat_completeness auto
termination
proof (relation "measure (\<lambda>(s, tokens). length (text s) - pos s)")
  show "wf (measure (\<lambda>(s, tokens). length (text s) - pos s))" by simp
next
  fix s :: Lexer and tokens :: "Token list" and c x s' tokens'
  assume "current_char s = Some c" "tokenize_step s tokens c = Inr x" "(s', tokens') = x"
  then have c: "current_char s = Some c" and st: "tokenize_step s tokens c = Inr (s', tokens')"
    by simp_all
  from tokenize_step_progress [OF c st] current_char_Some_pos [OF c]
  show "((s', tokens'), (s, tokens)) \<in> measure (\<lambda>(s, tokens). length (text s) - pos s)"
    by auto
qed

declare tokenize_loop.simps [simp del]

text \<open>
  \<^verbatim>\<open>Lexer.tokenize\<close>: the loop from an empty list, then the EOF token at the final cursor.
\<close>

definition tokenize :: "Lexer \<Rightarrow> error + Token list" where
  "tokenize s =
     (case tokenize_loop s [] of
        Inl e \<Rightarrow> Inl e
      | Inr (s', tokens) \<Rightarrow>
          Inr (tokens @ [\<lparr>tok_type = EOF, tok_value = [], tok_line = line s',
                           tok_column = column s'\<rparr>]))"

section \<open>Specification-level notions\<close>

text \<open>
  The part of the text the cursor has not consumed yet, \<^verbatim>\<open>self.text[self.pos:]\<close>.
\<close>

definition rest :: "Lexer \<Rightarrow> string" where
  "rest s = drop (pos s) (text s)"

text \<open>
  Horizontal whitespace, the characters of \<^verbatim>\<open>' \t'\<close>.
\<close>

definition hws :: "char \<Rightarrow> bool" where
  "hws c = (c = CHR '' '' \<or> c = TAB)"

text \<open>
  The characters an identifier continues with: \<^verbatim>\<open>isalnum()\<close> or an underscore.
\<close>

definition ident_char :: "char \<Rightarrow> bool" where
  "ident_char c = (isalnum c \<or> c = CHR ''_'')"

text \<open>
  The number reader as the specification words it: the maximal run of digits, then, if the
  next character is a dot, that dot and the maximal run of digits after it.
\<close>

definition number_lexeme :: "string \<Rightarrow> string" where
  "number_lexeme w =
     (let int_part = takeWhile isdigit w; after = dropWhile isdigit w
      in case after of
           [] \<Rightarrow> int_part
         | d # ds \<Rightarrow> if d = CHR ''.'' then int_part @ CHR ''.'' # takeWhile isdigit ds
                     else int_part)"

text \<open>
  The keyword table as the specification words it: an exact, case-sensitive comparison
  with \<open>if\<close>, \<open>while\<close>, \<open>for\<close>, \<open>print\<close>; anything else is an identifier.
\<close>

definition classify_word :: "string \<Rightarrow> TokenType" where
  "classify_word w =
     (if w = ''if'' then IF else if w = ''while'' then WHILE
      else if w = ''for'' then FOR else if w = ''print'' then PRINT else IDENTIFIER)"

text \<open>
  The escape table of the specification: \<open>n\<close> is a newline, \<open>t\<close> a tab, a backslash a
  backslash, the matching quote itself, any other character itself.
\<close>

definition spec_escape :: "char \<Rightarrow> char \<Rightarrow> char" where
  "spec_escape q d =
     (if d = CHR ''n'' then LF
      else if d = CHR ''t'' then TAB
      else if d = BACKSLASH then BACKSLASH
      else if d = q then q
      else d)"

text \<open>
  The decoded value of the raw characters \<open>w\<close> between two quotes \<open>q\<close>, as the
  specification describes the string reader; \<open>None\<close> when \<open>w\<close> holds an unescaped
  \<open>q\<close> or ends in a lone backslash, so is not the body of a closed literal.
\<close>

fun decode_body :: "char \<Rightarrow> string \<Rightarrow> string option" where
  "decode_body q [] = Some []"
| "decode_body q [c] = (if c = q \<or> c = BACKSLASH then None else Some [c])"
| "decode_body q (c # d # w) =
     (if c = q then None
      else if c = BACKSLASH then map_option ((#) (spec_escape q d)) (decode_body q w)
      else map_option ((#) c) (decode_body q (d # w)))"

text \<open>The kind of the two-character operator that starts with \<open>c\<close>.\<close>

definition two_char_type :: "char \<Rightarrow> TokenType" where
  "two_char_type c =
     (if c = CHR ''='' then EQUAL else if c = CHR ''!'' then NOT_EQUAL
      else if c = CHR ''<'' then LESS_EQUAL else GREATER_EQUAL)"

text \<open>
  The source characters a token that is not a string stands for: its text, and for a
  NEWLINE token (whose text is the two characters backslash and \<open>n\<close>) the line feed.
\<close>

definition literal_span :: "Token \<Rightarrow> string" where
  "literal_span tok = (if tok_type tok = NEWLINE then [LF] else tok_value tok)"

text \<open>
  \<open>w\<close> is a source span of the token: the literal span of a token that is not a string,
  and for a STRING token, whose text is decoded, any quoted literal whose body decodes to
  that text.
\<close>

definition source_span :: "Token \<Rightarrow> string \<Rightarrow> bool" where
  "source_span tok w =
     (if tok_type tok = STRING then
        (case w of
           [] \<Rightarrow> False
         | q # body \<Rightarrow> (q = DQUOTE \<or> q = SQUOTE) \<and> body \<noteq> [] \<and> last body = q \<and>
                       decode_body q (butlast body) = Some (tok_value tok))
      else w = literal_span tok)"

text \<open>
  A token with the run of horizontal whitespace before it and its span.
\<close>

definition token_segment :: "Token \<Rightarrow> string \<times> string \<Rightarrow> bool" where
  "token_segment tok seg = (list_all hws (fst seg) \<and> source_span tok (snd seg))"

text \<open>
  The source text of a segment: the whitespace, then the span.
\<close>

definition segment_text :: "string \<times> string \<Rightarrow> string" where
  "segment_text seg = fst seg @ snd seg"

text \<open>
  The spans of the tokens, each after its whitespace, concatenate to the source text.
\<close>

definition reconstructs :: "Token list \<Rightarrow> (string \<times> string) list \<Rightarrow> string \<Rightarrow> bool" where
  "reconstructs toks segs src =
     (list_all2 token_segment toks segs \<and> concat (map segment_text segs) = src)"

section \<open>The cursor and the remaining input\<close>

lemma rest_init [simp]: "rest (Lexer_init src) = src"
  by (simp add: rest_def Lexer_init_def)

lemma current_char_rest: "current_char s = (case rest s of [] \<Rightarrow> None | c # w \<Rightarrow> Some c)"
proof (cases "pos s < length (text s)")
  case True
  then have "rest s = text s ! pos s # drop (Suc (pos s)) (text s)"
    by (simp add: rest_def Cons_nth_drop_Suc)
  with True show ?thesis by (simp add: current_char_def)
next
  case False
  then show ?thesis by (simp add: current_char_def rest_def)
qed

lemma current_char_Some_iff: "current_char s = Some c \<longleftrightarrow> (\<exists>w. rest s = c # w)"
  by (simp add: current_char_rest split: list.splits)

lemma current_char_None_iff: "current_char s = None \<longleftrightarrow> rest s = []"
  by (simp add: current_char_rest split: list.splits)

lemma rest_advance [simp]: "rest (advance s) = tl (rest s)"
  by (simp add: rest_def drop_Suc tl_drop)

lemma peek_char_rest:
  "peek_char s 1 = (case rest s of c # d # w \<Rightarrow> Some d | _ \<Rightarrow> None)"
proof -
  have "peek_char s 1 = current_char (advance s)"
    by (simp add: peek_char_def current_char_def)
  then show ?thesis
    by (simp add: current_char_rest split: list.splits)
qed

lemma line_advance: "rest s = c # w \<Longrightarrow> line (advance s) = (if c = LF then line s + 1 else line s)"
  using current_char_Some_iff [of s c]
  by (auto simp: advance_def current_char_def split: if_splits)

lemma column_advance:
  "rest s = c # w \<Longrightarrow> column (advance s) = (if c = LF then 1 else column s + 1)"
  using current_char_Some_iff [of s c]
  by (auto simp: advance_def current_char_def split: if_splits)

lemma isdigit_not_LF: "isdigit c \<Longrightarrow> c \<noteq> LF"
  by (auto simp: isdigit_def)

lemma isalnum_not_LF: "isalnum c \<or> c = CHR ''_'' \<Longrightarrow> c \<noteq> LF"
  by (auto simp: isdigit_def isalnum_def isalpha_def isnumeric_def)

lemma skip_whitespace_rest:
  "rest (skip_whitespace s) = dropWhile hws (rest s) \<and> text (skip_whitespace s) = text s \<and>
   line (skip_whitespace s) = line s \<and>
   column (skip_whitespace s) = column s + length (takeWhile hws (rest s))"
proof (induction s rule: skip_whitespace.induct)
  case (1 s)
  show ?case
  proof (cases "rest s")
    case Nil
    then have "current_char s = None" by (simp add: current_char_None_iff)
    then have "skip_whitespace s = s" by (subst skip_whitespace.simps) simp
    with Nil show ?thesis by simp
  next
    case (Cons c w)
    then have cc: "current_char s = Some c" by (simp add: current_char_Some_iff)
    show ?thesis
    proof (cases "hws c")
      case True
      then have ws: "c = CHR '' '' \<or> c = TAB" by (simp add: hws_def)
      with cc have eq: "skip_whitespace s = skip_whitespace (advance s)"
        by (subst skip_whitespace.simps) simp
      from ws have "c \<noteq> LF" by auto
      with Cons have "line (advance s) = line s" "column (advance s) = column s + 1"
        by (simp_all add: line_advance column_advance)
      with "1.IH" [OF cc ws] Cons True eq show ?thesis by simp
    next
      case False
      then have "\<not> (c = CHR '' '' \<or> c = TAB)" by (simp add: hws_def)
      with cc have "skip_whitespace s = s" by (subst skip_whitespace.simps) simp
      with Cons False show ?thesis by simp
    qed
  qed
qed

lemma read_digits_rest:
  "read_digits s r = (s', r') \<Longrightarrow>
     r' = r @ takeWhile isdigit (rest s) \<and> rest s' = dropWhile isdigit (rest s) \<and>
     text s' = text s \<and> line s' = line s \<and>
     column s' = column s + length (takeWhile isdigit (rest s))"
proof (induction s r rule: read_digits.induct)
  case (1 s r)
  show ?case
  proof (cases "rest s")
    case Nil
    then have "current_char s = None" by (simp add: current_char_None_iff)
    with "1.prems" have "s' = s" "r' = r" by (subst (asm) read_digits.simps, simp)+
    with Nil show ?thesis by simp
  next
    case (Cons c w)
    then have cc: "current_char s = Some c" by (simp add: current_char_Some_iff)
    show ?thesis
    proof (cases "isdigit c")
      case True
      with cc "1.prems" have eq: "read_digits (advance s) (r @ [c]) = (s', r')"
        by (subst (asm) read_digits.simps) simp
      from True have "c \<noteq> LF" by (rule isdigit_not_LF)
      with Cons have "line (advance s) = line s" "column (advance s) = column s + 1"
        by (simp_all add: line_advance column_advance)
      with "1.IH" [OF cc True eq] Cons True show ?thesis by simp
    next
      case False
      with cc "1.prems" have "s' = s" "r' = r" by (subst (asm) read_digits.simps, simp)+
      with Cons False show ?thesis by simp
    qed
  qed
qed

lemma read_identifier_loop_rest:
  "read_identifier_loop s r = (s', r') \<Longrightarrow>
     r' = r @ takeWhile ident_char (rest s) \<and> rest s' = dropWhile ident_char (rest s) \<and>
     text s' = text s \<and> line s' = line s \<and>
     column s' = column s + length (takeWhile ident_char (rest s))"
proof (induction s r rule: read_identifier_loop.induct)
  case (1 s r)
  show ?case
  proof (cases "rest s")
    case Nil
    then have "current_char s = None" by (simp add: current_char_None_iff)
    with "1.prems" have "s' = s" "r' = r" by (subst (asm) read_identifier_loop.simps, simp)+
    with Nil show ?thesis by simp
  next
    case (Cons c w)
    then have cc: "current_char s = Some c" by (simp add: current_char_Some_iff)
    show ?thesis
    proof (cases "isalnum c \<or> c = CHR ''_''")
      case True
      with cc "1.prems" have eq: "read_identifier_loop (advance s) (r @ [c]) = (s', r')"
        by (subst (asm) read_identifier_loop.simps) simp
      from True have "c \<noteq> LF" by (rule isalnum_not_LF)
      with Cons have "line (advance s) = line s" "column (advance s) = column s + 1"
        by (simp_all add: line_advance column_advance)
      with "1.IH" [OF cc True eq] Cons True show ?thesis by (simp add: ident_char_def)
    next
      case False
      with cc "1.prems" have "s' = s" "r' = r"
        by (subst (asm) read_identifier_loop.simps, simp)+
      with Cons False show ?thesis by (simp add: ident_char_def)
    qed
  qed
qed

lemma keywords_classify:
  "(case keywords w of Some k \<Rightarrow> k | None \<Rightarrow> IDENTIFIER) = classify_word w"
  by (simp add: keywords_def classify_word_def)

lemma not_isdigit_dot: "\<not> isdigit CHR ''.''"
  by (simp add: isdigit_def)

lemma read_number_rest:
  assumes "read_number s = (tok, s')"
  shows "tok = \<lparr>tok_type = NUMBER, tok_value = number_lexeme (rest s), tok_line = line s,
                 tok_column = column s\<rparr> \<and>
         rest s = number_lexeme (rest s) @ rest s' \<and> text s' = text s"
proof -
  obtain s1 r1 where a: "read_digits s [] = (s1, r1)" by (cases "read_digits s []")
  note a' = read_digits_rest [OF a]
  show ?thesis
  proof (cases "current_char s1 = Some CHR ''.''")
    case True
    then obtain ds where ds: "rest s1 = CHR ''.'' # ds" by (auto simp: current_char_Some_iff)
    obtain s2 r2 where b: "read_digits (advance s1) (r1 @ [CHR ''.'']) = (s2, r2)"
      by (cases "read_digits (advance s1) (r1 @ [CHR ''.''])")
    note b' = read_digits_rest [OF b]
    from ds have adv: "line (advance s1) = line s1" "rest (advance s1) = ds"
      by (simp_all add: line_advance)
    from assms a True b have tok: "tok = \<lparr>tok_type = NUMBER, tok_value = r2, tok_line = line s2,
        tok_column = column s\<rparr>" and s': "s' = s2"
      by (auto simp: read_number_def)
    from a' ds have dw: "dropWhile isdigit (rest s) = CHR ''.'' # ds" by simp
    then have lex: "number_lexeme (rest s) =
        takeWhile isdigit (rest s) @ CHR ''.'' # takeWhile isdigit ds"
      by (simp add: number_lexeme_def)
    have "rest s = takeWhile isdigit (rest s) @ dropWhile isdigit (rest s)" by simp
    also have "dropWhile isdigit (rest s) = CHR ''.'' # takeWhile isdigit ds @ dropWhile isdigit ds"
      using dw by simp
    finally have "rest s = number_lexeme (rest s) @ rest s2"
      using lex b' adv by simp
    with tok s' a' b' adv lex show ?thesis by simp
  next
    case False
    with assms a have tok: "tok = \<lparr>tok_type = NUMBER, tok_value = r1, tok_line = line s1,
        tok_column = column s\<rparr>" and s': "s' = s1"
      by (auto simp: read_number_def)
    from a' have dw: "dropWhile isdigit (rest s) = rest s1" by simp
    from False have "number_lexeme (rest s) = takeWhile isdigit (rest s)"
      by (cases "rest s1") (auto simp: number_lexeme_def dw current_char_Some_iff)
    with tok s' a' show ?thesis by simp
  qed
qed

lemma read_identifier_rest:
  assumes "read_identifier s = (tok, s')"
  shows "tok = \<lparr>tok_type = classify_word (takeWhile ident_char (rest s)),
                 tok_value = takeWhile ident_char (rest s), tok_line = line s,
                 tok_column = column s\<rparr> \<and>
         rest s' = dropWhile ident_char (rest s) \<and> text s' = text s"
proof -
  obtain s1 r1 where a: "read_identifier_loop s [] = (s1, r1)"
    by (cases "read_identifier_loop s []")
  from assms a have "tok = \<lparr>tok_type = classify_word r1, tok_value = r1, tok_line = line s1,
      tok_column = column s\<rparr>" "s' = s1"
    by (auto simp: read_identifier_def keywords_classify)
  with read_identifier_loop_rest [OF a] show ?thesis by simp
qed

lemma count_takeWhile_isdigit: "count_list (takeWhile isdigit w) CHR ''.'' = 0"
  by (induction w) (auto simp: not_isdigit_dot)

lemma number_lexeme_one_dot: "count_list (number_lexeme w) CHR ''.'' \<le> 1"
  by (simp add: number_lexeme_def Let_def count_takeWhile_isdigit split: list.splits)

lemma decode_escape_spec: "decode_escape (Some q) d = spec_escape q d"
  by (simp add: decode_escape_def spec_escape_def)

lemma decode_body_plain:
  "c \<noteq> q \<Longrightarrow> c \<noteq> BACKSLASH \<Longrightarrow> decode_body q (c # w) = map_option ((#) c) (decode_body q w)"
  by (cases w) simp_all

lemma decode_body_escape:
  "q \<noteq> BACKSLASH \<Longrightarrow>
     decode_body q (BACKSLASH # d # w) = map_option ((#) (spec_escape q d)) (decode_body q w)"
  by simp

lemma decode_body_append:
  "decode_body q a = Some va \<Longrightarrow> decode_body q (a @ b) = map_option ((@) va) (decode_body q b)"
proof (induction q a arbitrary: va rule: decode_body.induct)
  case (1 q)
  then show ?case by (simp add: option.map_ident)
next
  case (2 q c)
  then show ?case by (auto simp: decode_body_plain option.map_comp comp_def split: if_splits)
next
  case (3 q c d w)
  show ?case
  proof (cases "c = BACKSLASH")
    case True
    with "3.prems" obtain v where v: "decode_body q w = Some v" "va = spec_escape q d # v" "c \<noteq> q"
      by (auto split: if_splits)
    from "3.IH"(1) [OF v(3) True v(1)] True v show ?thesis
      by (simp add: option.map_comp comp_def)
  next
    case False
    with "3.prems" obtain v where v: "decode_body q (d # w) = Some v" "va = c # v" "c \<noteq> q"
      by (auto split: if_splits)
    from "3.IH"(2) [OF v(3) False v(1)] False v show ?thesis
      by (simp add: decode_body_plain option.map_comp comp_def)
  qed
qed

lemma read_string_loop_decodes:
  "decode_body q raw = Some v \<Longrightarrow> rest s = raw @ q # post \<Longrightarrow>
     \<exists>s'. read_string_loop (Some q) s r = Inr (s', r @ v) \<and> rest s' = q # post \<and>
          text s' = text s \<and> line s' = line s + count_list raw LF"
proof (induction q raw arbitrary: s r v rule: decode_body.induct)
  case (1 q)
  then have "current_char s = Some q" by (simp add: current_char_Some_iff)
  then have "read_string_loop (Some q) s r = Inr (s, r)"
    by (subst read_string_loop.simps) simp
  with 1 show ?case by simp
next
  case (2 q c)
  then have c: "c \<noteq> q" "c \<noteq> BACKSLASH" and v: "v = [c]" by (auto split: if_splits)
  from "2.prems" have cc: "current_char s = Some c" by (simp add: current_char_Some_iff)
  from "2.prems" have "current_char (advance s) = Some q" by (simp add: current_char_Some_iff)
  then have "read_string_loop (Some q) (advance s) (r @ [c]) = Inr (advance s, r @ [c])"
    by (subst read_string_loop.simps) simp
  with cc c have "read_string_loop (Some q) s r = Inr (advance s, r @ [c])"
    by (subst read_string_loop.simps) simp
  with "2.prems" v show ?case by (simp add: line_advance)
next
  case (3 q c d w)
  from "3.prems" have cc: "current_char s = Some c" by (simp add: current_char_Some_iff)
  from "3.prems" have cq: "c \<noteq> q" by (auto split: if_splits)
  show ?case
  proof (cases "c = BACKSLASH")
    case True
    with "3.prems" cq obtain v' where v': "decode_body q w = Some v'" "v = spec_escape q d # v'"
      by auto
    from "3.prems" have cd: "current_char (advance s) = Some d"
      by (simp add: current_char_Some_iff)
    from "3.prems" have r2: "rest (advance (advance s)) = w @ q # post" by simp
    from "3.IH"(1) [OF cq True v'(1) r2, of "r @ [spec_escape q d]"]
    obtain s' where s': "read_string_loop (Some q) (advance (advance s)) (r @ [spec_escape q d])
        = Inr (s', (r @ [spec_escape q d]) @ v')" "rest s' = q # post"
        "text s' = text (advance (advance s))"
        "line s' = line (advance (advance s)) + count_list w LF"
      by blast
    from cc cq True cd have "read_string_loop (Some q) s r =
        read_string_loop (Some q) (advance (advance s)) (r @ [spec_escape q d])"
      by (subst read_string_loop.simps) (simp add: decode_escape_spec)
    moreover from "3.prems" True have "line (advance (advance s)) = line s + count_list [c, d] LF"
      by (simp add: line_advance [where s = "advance s" and c = d and w = "w @ q # post"]
          line_advance [where s = s and c = c and w = "d # w @ q # post"])
    ultimately show ?thesis using s' v' by auto
  next
    case False
    with "3.prems" cq obtain v' where v': "decode_body q (d # w) = Some v'" "v = c # v'"
      by auto
    from "3.prems" have r1: "rest (advance s) = (d # w) @ q # post" by simp
    from "3.IH"(2) [OF cq False v'(1) r1, of "r @ [c]"]
    obtain s' where s': "read_string_loop (Some q) (advance s) (r @ [c]) = Inr (s', (r @ [c]) @ v')"
        "rest s' = q # post" "text s' = text (advance s)"
        "line s' = line (advance s) + count_list (d # w) LF"
      by blast
    from cc cq False have "read_string_loop (Some q) s r =
        read_string_loop (Some q) (advance s) (r @ [c])"
      by (subst read_string_loop.simps) simp
    moreover from "3.prems" have "line (advance s) = line s + count_list [c] LF"
      by (simp add: line_advance [where s = s and c = c and w = "d # w @ q # post"])
    ultimately show ?thesis using s' v' by auto
  qed
qed

lemma read_string_loop_consumed:
  "read_string_loop qo s r = Inr (s', r') \<Longrightarrow> qo = Some q \<Longrightarrow>
     \<exists>raw v. rest s = raw @ rest s' \<and> decode_body q raw = Some v \<and> r' = r @ v \<and>
            text s' = text s \<and> (current_char s' = None \<or> current_char s' = Some q)"
proof (induction qo s r rule: read_string_loop.induct)
  case (1 qo s r)
  show ?case
  proof (cases "current_char s")
    case None
    with "1.prems" have "s' = s" "r' = r" by (subst (asm) read_string_loop.simps, simp)+
    with None show ?thesis by simp
  next
    case (Some c)
    then obtain w where w: "rest s = c # w" by (auto simp: current_char_Some_iff)
    consider (quote) "c = q"
      | (esc) "c \<noteq> q" "c = BACKSLASH"
      | (plain) "c \<noteq> q" "c \<noteq> BACKSLASH" by blast
    then show ?thesis
    proof cases
      case quote
      with "1.prems" Some have "s' = s" "r' = r" by (subst (asm) read_string_loop.simps, simp)+
      with Some quote show ?thesis by simp
    next
      case esc
      from esc "1.prems" have ne: "Some c \<noteq> qo" by simp
      show ?thesis
      proof (cases "current_char (advance s)")
        case None
        with "1.prems" Some esc show ?thesis by (subst (asm) read_string_loop.simps) simp
      next
        case d: (Some d)
        with w obtain w' where w': "w = d # w'" by (auto simp: current_char_Some_iff)
        from "1.prems" Some esc d
        have eq: "read_string_loop qo (advance (advance s)) (r @ [decode_escape qo d]) = Inr (s', r')"
          by (subst (asm) read_string_loop.simps) simp
        from "1.IH"(1) [OF Some ne esc(2) d eq "1.prems"(2)]
        obtain raw v where rv: "rest (advance (advance s)) = raw @ rest s'"
            "decode_body q raw = Some v" "r' = (r @ [decode_escape qo d]) @ v"
            "text s' = text (advance (advance s))"
            "current_char s' = None \<or> current_char s' = Some q"
          by blast
        from rv(2) esc have "decode_body q (c # d # raw) = Some (spec_escape q d # v)" by simp
        moreover from w w' rv(1) have "rest s = (c # d # raw) @ rest s'" by simp
        moreover from rv(3) "1.prems"(2) have "r' = r @ spec_escape q d # v"
          by (simp add: decode_escape_spec)
        ultimately show ?thesis using rv(4,5) by (metis text_advance)
      qed
    next
      case plain
      from plain "1.prems" have ne: "Some c \<noteq> qo" by simp
      from "1.prems" Some plain
      have eq: "read_string_loop qo (advance s) (r @ [c]) = Inr (s', r')"
        by (subst (asm) read_string_loop.simps) simp
      from "1.IH"(2) [OF Some ne plain(2) eq "1.prems"(2)]
      obtain raw v where rv: "rest (advance s) = raw @ rest s'"
          "decode_body q raw = Some v" "r' = (r @ [c]) @ v" "text s' = text (advance s)"
          "current_char s' = None \<or> current_char s' = Some q"
        by blast
      from rv(2) plain have "decode_body q (c # raw) = Some (c # v)"
        by (simp add: decode_body_plain)
      moreover from w rv(1) have "rest s = (c # raw) @ rest s'" by simp
      moreover from rv(3) have "r' = r @ c # v" by simp
      ultimately show ?thesis using rv(4,5) by (metis text_advance)
    qed
  qed
qed

lemma read_string_consumed:
  assumes "current_char s = Some q" "read_string s = Inr (tok, s')"
  shows "\<exists>raw. rest s = q # raw @ q # rest s' \<and> decode_body q raw = Some (tok_value tok) \<and>
           tok_type tok = STRING \<and> text s' = text s"
proof -
  from assms obtain s1 r1 where a: "read_string_loop (Some q) (advance s) [] = Inr (s1, r1)"
    and b: "current_char s1 = Some q" and c: "s' = advance s1"
    and d: "tok_type tok = STRING" "tok_value tok = r1"
    by (auto simp: read_string_def Let_def split: sum.splits if_splits)
  from read_string_loop_consumed [OF a refl]
  obtain raw v where rv: "rest (advance s) = raw @ rest s1" "decode_body q raw = Some v"
      "r1 = v" "text s1 = text s"
    by auto
  from b obtain post where post: "rest s1 = q # post" by (auto simp: current_char_Some_iff)
  from assms(1) obtain w where "rest s = q # w" by (auto simp: current_char_Some_iff)
  with rv(1) post have "rest s = q # raw @ q # rest (advance s1)" by simp
  with rv c d show ?thesis by auto
qed

section \<open>The literal readers\<close>

lemma number_lexeme_nonempty: "isdigit c \<Longrightarrow> number_lexeme (c # w) \<noteq> []"
  by (simp add: number_lexeme_def Let_def split: list.splits)

lemma number_lexeme_stops:
  "drop (length (number_lexeme w)) w = [] \<or> \<not> isdigit (hd (drop (length (number_lexeme w)) w))"
proof (cases "dropWhile isdigit w")
  case Nil
  have "number_lexeme w = takeWhile isdigit w"
    unfolding number_lexeme_def Let_def Nil by simp
  with Nil show ?thesis by (simp add: dropWhile_eq_drop [symmetric])
next
  case (Cons d ds)
  have w: "w = takeWhile isdigit w @ d # ds" using Cons by (metis takeWhile_dropWhile_id)
  show ?thesis
  proof (cases "d = CHR ''.''")
    case True
    with Cons have "number_lexeme w = takeWhile isdigit w @ CHR ''.'' # takeWhile isdigit ds"
      by (simp add: number_lexeme_def)
    then have "length (number_lexeme w) =
        length (takeWhile isdigit w) + Suc (length (takeWhile isdigit ds))" by simp
    then have "drop (length (number_lexeme w)) w =
        drop (length (takeWhile isdigit w) + Suc (length (takeWhile isdigit ds)))
          (takeWhile isdigit w @ d # ds)"
      using w by simp
    also have "\<dots> = dropWhile isdigit ds" by (simp add: dropWhile_eq_drop [symmetric])
    finally show ?thesis by (metis hd_dropWhile)
  next
    case False
    with Cons have "number_lexeme w = takeWhile isdigit w" by (simp add: number_lexeme_def)
    then have "drop (length (number_lexeme w)) w = d # ds"
      using Cons by (simp add: dropWhile_eq_drop [symmetric])
    moreover have "\<not> isdigit d" using Cons by (metis hd_dropWhile list.sel(1) list.distinct(1))
    ultimately show ?thesis by simp
  qed
qed

lemma takeWhile_stops: "dropWhile P w = [] \<or> \<not> P (hd (dropWhile P w))"
  by (metis hd_dropWhile)

lemma read_string_decodes:
  assumes "q = DQUOTE \<or> q = SQUOTE" "rest s = q # raw @ q # post" "decode_body q raw = Some v"
  shows "\<exists>tok s'. read_string s = Inr (tok, s') \<and> tok_type tok = STRING \<and> tok_value tok = v \<and>
           tok_column tok = column s \<and> tok_line tok = line s' \<and>
           rest s' = post \<and> text s' = text s \<and> line s' = line s + count_list raw LF"
proof -
  from assms(1) have q: "q \<noteq> LF" by auto
  from assms(2) have cc: "current_char s = Some q" by (simp add: current_char_Some_iff)
  from assms(2) have r1: "rest (advance s) = raw @ q # post" by simp
  from assms(2) q have l1: "line (advance s) = line s" by (simp add: line_advance)
  from read_string_loop_decodes [OF assms(3) r1, of "[]"]
  obtain s1 where s1: "read_string_loop (Some q) (advance s) [] = Inr (s1, v)"
      "rest s1 = q # post" "text s1 = text s" "line s1 = line s + count_list raw LF"
    using l1 by auto
  from s1(2) have c1: "current_char s1 = Some q" by (simp add: current_char_Some_iff)
  from s1(2) q have l2: "line (advance s1) = line s1" by (simp add: line_advance)
  from cc s1 c1 have "read_string s = Inr (\<lparr>tok_type = STRING, tok_value = v,
      tok_line = line (advance s1), tok_column = column s\<rparr>, advance s1)"
    by (simp add: read_string_def Let_def)
  with s1 l2 show ?thesis by simp
qed

lemma quote_char_class:
  assumes "q = DQUOTE \<or> q = SQUOTE"
  shows "\<not> (q = CHR '' '' \<or> q = TAB)" "q \<noteq> LF" "\<not> isdigit q" "q \<noteq> BACKSLASH"
  using assms by (auto simp: isdigit_def)

lemma tokenize_loop_string:
  assumes "q = DQUOTE \<or> q = SQUOTE" "current_char s = Some q" "read_string s = Inr (tok, s')"
  shows "tokenize_loop s tokens = tokenize_loop s' (tokens @ [tok])"
proof -
  from assms(1,3) quote_char_class [OF assms(1)]
  have "tokenize_step s tokens q = Inr (s', tokens @ [tok])"
    by (simp add: tokenize_step_def)
  with assms(2) show ?thesis by (subst tokenize_loop.simps) simp
qed

text \<open>
  Claim C6. The number reader, entered on a digit, returns one NUMBER token at the position
  of entry whose text is the maximal run of digits, then at most one dot that follows at
  once and the maximal run of digits after it; the text is the consumed characters
  themselves, the character left under the cursor is no digit, and the text holds at most
  one dot. \<open>3.14\<close>, \<open>42\<close> and \<open>3.\<close> each give one token with that text, and on
  \<open>1.2.3\<close> the reader stops before the second dot.
\<close>

theorem read_number_maximal_munch:
  assumes "current_char s = Some c" "isdigit c"
  shows "(\<exists>s'. read_number s =
            (\<lparr>tok_type = NUMBER, tok_value = number_lexeme (rest s), tok_line = line s,
               tok_column = column s\<rparr>, s') \<and>
            rest s = number_lexeme (rest s) @ rest s' \<and>
            (rest s' = [] \<or> \<not> isdigit (hd (rest s')))) \<and>
         number_lexeme (rest s) \<noteq> [] \<and>
         count_list (number_lexeme (rest s)) CHR ''.'' \<le> 1 \<and>
         tokenize (Lexer_init ''3.14'') =
           Inr [\<lparr>tok_type = NUMBER, tok_value = ''3.14'', tok_line = 1, tok_column = 1\<rparr>,
                \<lparr>tok_type = EOF, tok_value = [], tok_line = 1, tok_column = 5\<rparr>] \<and>
         tokenize (Lexer_init ''42'') =
           Inr [\<lparr>tok_type = NUMBER, tok_value = ''42'', tok_line = 1, tok_column = 1\<rparr>,
                \<lparr>tok_type = EOF, tok_value = [], tok_line = 1, tok_column = 3\<rparr>] \<and>
         tokenize (Lexer_init ''3.'') =
           Inr [\<lparr>tok_type = NUMBER, tok_value = ''3.'', tok_line = 1, tok_column = 1\<rparr>,
                \<lparr>tok_type = EOF, tok_value = [], tok_line = 1, tok_column = 3\<rparr>] \<and>
         read_number (Lexer_init ''1.2.3'') =
           (\<lparr>tok_type = NUMBER, tok_value = ''1.2'', tok_line = 1, tok_column = 1\<rparr>,
            \<lparr>text = ''1.2.3'', pos = 3, line = 1, column = 4\<rparr>)"
proof -
  obtain tok s' where r: "read_number s = (tok, s')" by (cases "read_number s")
  from read_number_rest [OF r] have a: "rest s = number_lexeme (rest s) @ rest s'" by simp
  then have "rest s' = drop (length (number_lexeme (rest s))) (rest s)"
    by (metis append_eq_conv_conj)
  with number_lexeme_stops [of "rest s"]
  have "rest s' = [] \<or> \<not> isdigit (hd (rest s'))" by simp
  with read_number_rest [OF r] r
  have "\<exists>s'. read_number s =
            (\<lparr>tok_type = NUMBER, tok_value = number_lexeme (rest s), tok_line = line s,
               tok_column = column s\<rparr>, s') \<and>
            rest s = number_lexeme (rest s) @ rest s' \<and>
            (rest s' = [] \<or> \<not> isdigit (hd (rest s')))"
    by auto
  moreover from assms have "number_lexeme (rest s) \<noteq> []"
    by (auto simp: current_char_Some_iff number_lexeme_nonempty)
  moreover have "tokenize (Lexer_init ''3.14'') =
           Inr [\<lparr>tok_type = NUMBER, tok_value = ''3.14'', tok_line = 1, tok_column = 1\<rparr>,
                \<lparr>tok_type = EOF, tok_value = [], tok_line = 1, tok_column = 5\<rparr>]"
    by code_simp
  moreover have "tokenize (Lexer_init ''42'') =
           Inr [\<lparr>tok_type = NUMBER, tok_value = ''42'', tok_line = 1, tok_column = 1\<rparr>,
                \<lparr>tok_type = EOF, tok_value = [], tok_line = 1, tok_column = 3\<rparr>]"
    by code_simp
  moreover have "tokenize (Lexer_init ''3.'') =
           Inr [\<lparr>tok_type = NUMBER, tok_value = ''3.'', tok_line = 1, tok_column = 1\<rparr>,
                \<lparr>tok_type = EOF, tok_value = [], tok_line = 1, tok_column = 3\<rparr>]"
    by code_simp
  moreover have "read_number (Lexer_init ''1.2.3'') =
           (\<lparr>tok_type = NUMBER, tok_value = ''1.2'', tok_line = 1, tok_column = 1\<rparr>,
            \<lparr>text = ''1.2.3'', pos = 3, line = 1, column = 4\<rparr>)"
    by code_simp
  ultimately show ?thesis using number_lexeme_one_dot [of "rest s"] by blast
qed

theorem read_number_maximal_munch_witness:
  "current_char (Lexer_init ''12.5+x'') = Some CHR ''1'' \<and> isdigit CHR ''1'' \<and>
   number_lexeme (rest (Lexer_init ''12.5+x'')) = ''12.5'' \<and>
   (\<exists>s'. read_number (Lexer_init ''12.5+x'') =
            (\<lparr>tok_type = NUMBER, tok_value = number_lexeme (rest (Lexer_init ''12.5+x'')),
               tok_line = line (Lexer_init ''12.5+x''),
               tok_column = column (Lexer_init ''12.5+x'')\<rparr>, s') \<and>
          rest (Lexer_init ''12.5+x'') = number_lexeme (rest (Lexer_init ''12.5+x'')) @ rest s' \<and>
          (rest s' = [] \<or> \<not> isdigit (hd (rest s'))))"
proof -
  have h1: "current_char (Lexer_init ''12.5+x'') = Some CHR ''1''" by code_simp
  have h2: "isdigit CHR ''1''" by code_simp
  have h3: "number_lexeme (rest (Lexer_init ''12.5+x'')) = ''12.5''" by code_simp
  from read_number_maximal_munch [OF h1 h2] h1 h2 h3 show ?thesis by blast
qed

text \<open>
  Claim C8. The identifier reader consumes the maximal run of letters, digits and
  underscores (the characters of \<^verbatim>\<open>isalnum()\<close> and the underscore), and classifies the
  whole run by exact, case-sensitive lookup in the table \<open>if\<close>, \<open>while\<close>, \<open>for\<close>,
  \<open>print\<close>: the keyword kind on a match, IDENTIFIER otherwise, the text being the run
  either way. \<open>ifx\<close> is one identifier, \<open>if x\<close> a keyword and an identifier, \<open>If\<close>
  an identifier.
\<close>

theorem read_identifier_maximal_munch:
  "(\<exists>s'. read_identifier s =
            (\<lparr>tok_type = classify_word (takeWhile ident_char (rest s)),
               tok_value = takeWhile ident_char (rest s), tok_line = line s,
               tok_column = column s\<rparr>, s') \<and>
          rest s = takeWhile ident_char (rest s) @ rest s' \<and>
          (rest s' = [] \<or> \<not> ident_char (hd (rest s')))) \<and>
   ((case keywords w of Some k \<Rightarrow> k | None \<Rightarrow> IDENTIFIER) = classify_word w) \<and>
   tokenize (Lexer_init ''ifx'') =
     Inr [\<lparr>tok_type = IDENTIFIER, tok_value = ''ifx'', tok_line = 1, tok_column = 1\<rparr>,
          \<lparr>tok_type = EOF, tok_value = [], tok_line = 1, tok_column = 4\<rparr>] \<and>
   tokenize (Lexer_init ''if x'') =
     Inr [\<lparr>tok_type = IF, tok_value = ''if'', tok_line = 1, tok_column = 1\<rparr>,
          \<lparr>tok_type = IDENTIFIER, tok_value = ''x'', tok_line = 1, tok_column = 4\<rparr>,
          \<lparr>tok_type = EOF, tok_value = [], tok_line = 1, tok_column = 5\<rparr>] \<and>
   tokenize (Lexer_init ''If'') =
     Inr [\<lparr>tok_type = IDENTIFIER, tok_value = ''If'', tok_line = 1, tok_column = 1\<rparr>,
          \<lparr>tok_type = EOF, tok_value = [], tok_line = 1, tok_column = 3\<rparr>]"
proof -
  obtain tok s' where r: "read_identifier s = (tok, s')" by (cases "read_identifier s")
  from read_identifier_rest [OF r] r takeWhile_stops [of ident_char "rest s"]
  have "\<exists>s'. read_identifier s =
            (\<lparr>tok_type = classify_word (takeWhile ident_char (rest s)),
               tok_value = takeWhile ident_char (rest s), tok_line = line s,
               tok_column = column s\<rparr>, s') \<and>
          rest s = takeWhile ident_char (rest s) @ rest s' \<and>
          (rest s' = [] \<or> \<not> ident_char (hd (rest s')))"
    by auto
  moreover have "tokenize (Lexer_init ''ifx'') =
     Inr [\<lparr>tok_type = IDENTIFIER, tok_value = ''ifx'', tok_line = 1, tok_column = 1\<rparr>,
          \<lparr>tok_type = EOF, tok_value = [], tok_line = 1, tok_column = 4\<rparr>]"
    by code_simp
  moreover have "tokenize (Lexer_init ''if x'') =
     Inr [\<lparr>tok_type = IF, tok_value = ''if'', tok_line = 1, tok_column = 1\<rparr>,
          \<lparr>tok_type = IDENTIFIER, tok_value = ''x'', tok_line = 1, tok_column = 4\<rparr>,
          \<lparr>tok_type = EOF, tok_value = [], tok_line = 1, tok_column = 5\<rparr>]"
    by code_simp
  moreover have "tokenize (Lexer_init ''If'') =
     Inr [\<lparr>tok_type = IDENTIFIER, tok_value = ''If'', tok_line = 1, tok_column = 1\<rparr>,
          \<lparr>tok_type = EOF, tok_value = [], tok_line = 1, tok_column = 3\<rparr>]"
    by code_simp
  ultimately show ?thesis using keywords_classify [of w] by blast
qed

theorem read_identifier_maximal_munch_witness:
  "takeWhile ident_char (rest (Lexer_init ''while_1 x'')) = ''while_1'' \<and>
   classify_word ''while_1'' = IDENTIFIER \<and> classify_word ''while'' = WHILE \<and>
   (\<exists>s'. read_identifier (Lexer_init ''while_1 x'') =
            (\<lparr>tok_type = classify_word (takeWhile ident_char (rest (Lexer_init ''while_1 x''))),
               tok_value = takeWhile ident_char (rest (Lexer_init ''while_1 x'')),
               tok_line = line (Lexer_init ''while_1 x''),
               tok_column = column (Lexer_init ''while_1 x'')\<rparr>, s') \<and>
          rest (Lexer_init ''while_1 x'') =
            takeWhile ident_char (rest (Lexer_init ''while_1 x'')) @ rest s' \<and>
          (rest s' = [] \<or> \<not> ident_char (hd (rest s'))))"
proof -
  have h1: "takeWhile ident_char (rest (Lexer_init ''while_1 x'')) = ''while_1''" by code_simp
  have h2: "classify_word ''while_1'' = IDENTIFIER" "classify_word ''while'' = WHILE"
    by code_simp+
  from read_identifier_maximal_munch [of "Lexer_init ''while_1 x''" "''while''"] h1 h2
  show ?thesis by blast
qed

text \<open>
  Claim C7. The string reader decodes escapes into the text of its token: after a
  backslash, \<open>n\<close> gives a line feed, \<open>t\<close> a tab, a backslash a backslash, the matching
  quote itself and any other character itself, with no error. For a literal whose raw
  body decodes to \<open>v\<close> the reader returns one STRING token of text \<open>v\<close>, at the column
  of the opening quote, and leaves the cursor after the closing quote. The literal
  \<open>a\nb\<close> written with a backslash and an \<open>n\<close> gives a token whose text has a line feed
  between \<open>a\<close> and \<open>b\<close>.
\<close>

theorem read_string_decodes_escapes:
  assumes "q = DQUOTE \<or> q = SQUOTE" "rest s = q # raw @ q # post" "decode_body q raw = Some v"
  shows "(\<exists>tok s'. read_string s = Inr (tok, s') \<and> tok_type tok = STRING \<and> tok_value tok = v \<and>
            tok_column tok = column s \<and> rest s' = post) \<and>
         decode_escape (Some q) CHR ''n'' = LF \<and>
         decode_escape (Some q) CHR ''t'' = TAB \<and>
         decode_escape (Some q) BACKSLASH = BACKSLASH \<and>
         decode_escape (Some q) q = q \<and>
         (d \<noteq> CHR ''n'' \<and> d \<noteq> CHR ''t'' \<longrightarrow> decode_escape (Some q) d = d) \<and>
         decode_escape (Some q) d = spec_escape q d \<and>
         tokenize (Lexer_init [DQUOTE, CHR ''a'', BACKSLASH, CHR ''n'', CHR ''b'', DQUOTE]) =
           Inr [\<lparr>tok_type = STRING, tok_value = [CHR ''a'', LF, CHR ''b''], tok_line = 1,
                 tok_column = 1\<rparr>,
                \<lparr>tok_type = EOF, tok_value = [], tok_line = 1, tok_column = 7\<rparr>]"
proof -
  from read_string_decodes [OF assms]
  have "\<exists>tok s'. read_string s = Inr (tok, s') \<and> tok_type tok = STRING \<and> tok_value tok = v \<and>
            tok_column tok = column s \<and> rest s' = post"
    by blast
  moreover from assms(1) have "decode_escape (Some q) CHR ''n'' = LF"
      "decode_escape (Some q) CHR ''t'' = TAB" "decode_escape (Some q) BACKSLASH = BACKSLASH"
      "decode_escape (Some q) q = q"
    by (auto simp: decode_escape_def)
  moreover have "d \<noteq> CHR ''n'' \<and> d \<noteq> CHR ''t'' \<longrightarrow> decode_escape (Some q) d = d"
    by (simp add: decode_escape_def)
  moreover have "tokenize (Lexer_init [DQUOTE, CHR ''a'', BACKSLASH, CHR ''n'', CHR ''b'', DQUOTE]) =
           Inr [\<lparr>tok_type = STRING, tok_value = [CHR ''a'', LF, CHR ''b''], tok_line = 1,
                 tok_column = 1\<rparr>,
                \<lparr>tok_type = EOF, tok_value = [], tok_line = 1, tok_column = 7\<rparr>]"
    by code_simp
  ultimately show ?thesis using decode_escape_spec [of q d] by blast
qed

theorem read_string_decodes_escapes_witness:
  "(SQUOTE = DQUOTE \<or> SQUOTE = SQUOTE) \<and>
   rest (Lexer_init [SQUOTE, CHR ''x'', BACKSLASH, CHR ''t'', BACKSLASH, SQUOTE, SQUOTE, CHR ''+''])
     = SQUOTE # [CHR ''x'', BACKSLASH, CHR ''t'', BACKSLASH, SQUOTE] @ SQUOTE # ''+'' \<and>
   decode_body SQUOTE [CHR ''x'', BACKSLASH, CHR ''t'', BACKSLASH, SQUOTE]
     = Some [CHR ''x'', TAB, SQUOTE] \<and>
   (\<exists>tok s'. read_string
        (Lexer_init [SQUOTE, CHR ''x'', BACKSLASH, CHR ''t'', BACKSLASH, SQUOTE, SQUOTE, CHR ''+''])
          = Inr (tok, s') \<and>
      tok_type tok = STRING \<and> tok_value tok = [CHR ''x'', TAB, SQUOTE] \<and>
      tok_column tok =
        column (Lexer_init [SQUOTE, CHR ''x'', BACKSLASH, CHR ''t'', BACKSLASH, SQUOTE, SQUOTE, CHR ''+''])
      \<and> rest s' = ''+'')"
proof -
  have h1: "SQUOTE = DQUOTE \<or> SQUOTE = SQUOTE" by simp
  have h2: "rest (Lexer_init [SQUOTE, CHR ''x'', BACKSLASH, CHR ''t'', BACKSLASH, SQUOTE, SQUOTE, CHR ''+''])
     = SQUOTE # [CHR ''x'', BACKSLASH, CHR ''t'', BACKSLASH, SQUOTE] @ SQUOTE # ''+''" by simp
  have h3: "decode_body SQUOTE [CHR ''x'', BACKSLASH, CHR ''t'', BACKSLASH, SQUOTE]
     = Some [CHR ''x'', TAB, SQUOTE]" by code_simp
  from read_string_decodes_escapes [OF h1 h2 h3] h1 h2 h3 show ?thesis by blast
qed

text \<open>
  Claim C10. A raw line feed inside a quoted literal is accepted: the reader appends it to
  the decoded text like any other character, the loop of \<^verbatim>\<open>tokenize\<close> appends the one
  STRING token and no NEWLINE token for it, nothing is raised, and the cursor's line has
  advanced by the line feeds of the literal. Only a line feed outside the literal gives a
  NEWLINE token.
\<close>

theorem read_string_accepts_raw_newline:
  assumes "q = DQUOTE \<or> q = SQUOTE" "rest s = q # raw1 @ LF # raw2 @ q # post"
    "decode_body q raw1 = Some v1" "decode_body q raw2 = Some v2"
  shows "(\<exists>tok s'. read_string s = Inr (tok, s') \<and>
            tokenize_loop s tokens = tokenize_loop s' (tokens @ [tok]) \<and>
            tok_type tok = STRING \<and> tok_value tok = v1 @ LF # v2 \<and> rest s' = post \<and>
            line s' = line s + count_list raw1 LF + 1 + count_list raw2 LF) \<and>
         tokenize (Lexer_init [SQUOTE, CHR ''x'', LF, SQUOTE, LF]) =
           Inr [\<lparr>tok_type = STRING, tok_value = [CHR ''x'', LF], tok_line = 2, tok_column = 1\<rparr>,
                \<lparr>tok_type = NEWLINE, tok_value = [BACKSLASH, CHR ''n''], tok_line = 2,
                  tok_column = 2\<rparr>,
                \<lparr>tok_type = EOF, tok_value = [], tok_line = 3, tok_column = 1\<rparr>]"
proof -
  from assms(1) have q: "LF \<noteq> q" "LF \<noteq> BACKSLASH" by auto
  from assms(4) q have "decode_body q (LF # raw2) = Some (LF # v2)"
    by (simp add: decode_body_plain)
  with decode_body_append [OF assms(3), of "LF # raw2"]
  have d: "decode_body q (raw1 @ LF # raw2) = Some (v1 @ LF # v2)" by simp
  from assms(2) have r: "rest s = q # (raw1 @ LF # raw2) @ q # post" by simp
  from assms(2) have cc: "current_char s = Some q" by (simp add: current_char_Some_iff)
  from read_string_decodes [OF assms(1) r d]
  obtain tok s' where t: "read_string s = Inr (tok, s')" "tok_type tok = STRING"
      "tok_value tok = v1 @ LF # v2" "rest s' = post"
      "line s' = line s + count_list (raw1 @ LF # raw2) LF"
    by blast
  from t(5) have "line s' = line s + count_list raw1 LF + 1 + count_list raw2 LF" by simp
  with t tokenize_loop_string [OF assms(1) cc t(1), of tokens]
  have "\<exists>tok s'. read_string s = Inr (tok, s') \<and>
            tokenize_loop s tokens = tokenize_loop s' (tokens @ [tok]) \<and>
            tok_type tok = STRING \<and> tok_value tok = v1 @ LF # v2 \<and> rest s' = post \<and>
            line s' = line s + count_list raw1 LF + 1 + count_list raw2 LF"
    by blast
  moreover have "tokenize (Lexer_init [SQUOTE, CHR ''x'', LF, SQUOTE, LF]) =
           Inr [\<lparr>tok_type = STRING, tok_value = [CHR ''x'', LF], tok_line = 2, tok_column = 1\<rparr>,
                \<lparr>tok_type = NEWLINE, tok_value = [BACKSLASH, CHR ''n''], tok_line = 2,
                  tok_column = 2\<rparr>,
                \<lparr>tok_type = EOF, tok_value = [], tok_line = 3, tok_column = 1\<rparr>]"
    by code_simp
  ultimately show ?thesis by blast
qed

theorem read_string_accepts_raw_newline_witness:
  "(DQUOTE = DQUOTE \<or> DQUOTE = SQUOTE) \<and>
   rest (Lexer_init [DQUOTE, CHR ''a'', LF, CHR ''b'', DQUOTE, CHR '','']) =
     DQUOTE # ''a'' @ LF # ''b'' @ DQUOTE # '','' \<and>
   decode_body DQUOTE ''a'' = Some ''a'' \<and> decode_body DQUOTE ''b'' = Some ''b'' \<and>
   (\<exists>tok s'. read_string (Lexer_init [DQUOTE, CHR ''a'', LF, CHR ''b'', DQUOTE, CHR '','']) =
        Inr (tok, s') \<and>
      tokenize_loop (Lexer_init [DQUOTE, CHR ''a'', LF, CHR ''b'', DQUOTE, CHR '','']) [] =
        tokenize_loop s' ([] @ [tok]) \<and>
      tok_type tok = STRING \<and> tok_value tok = ''a'' @ LF # ''b'' \<and> rest s' = '','' \<and>
      line s' = line (Lexer_init [DQUOTE, CHR ''a'', LF, CHR ''b'', DQUOTE, CHR '','']) +
        count_list ''a'' LF + 1 + count_list ''b'' LF)"
proof -
  have h1: "DQUOTE = DQUOTE \<or> DQUOTE = SQUOTE" by simp
  have h2: "rest (Lexer_init [DQUOTE, CHR ''a'', LF, CHR ''b'', DQUOTE, CHR '','']) =
     DQUOTE # ''a'' @ LF # ''b'' @ DQUOTE # '',''" by simp
  have h3: "decode_body DQUOTE ''a'' = Some ''a''" by code_simp
  have h4: "decode_body DQUOTE ''b'' = Some ''b''" by code_simp
  from read_string_accepts_raw_newline [OF h1 h2 h3 h4, of "[]"] h1 h2 h3 h4
  show ?thesis by blast
qed

section \<open>Operators\<close>

lemma operator_char_class:
  assumes "c \<in> {CHR ''='', CHR ''!'', CHR ''<'', CHR ''>''}"
  shows "\<not> (c = CHR '' '' \<or> c = TAB)" "c \<noteq> LF" "\<not> isdigit c" "\<not> (c = DQUOTE \<or> c = SQUOTE)"
    "\<not> (isalpha c \<or> c = CHR ''_'')"
  using assms by (auto simp: isdigit_def isalpha_def)

lemma tokenize_step_two_char:
  assumes "rest s = c # CHR ''='' # w" "c \<in> {CHR ''='', CHR ''!'', CHR ''<'', CHR ''>''}"
  shows "tokenize_step s tokens c =
           Inr (advance (advance s),
                tokens @ [\<lparr>tok_type = two_char_type c, tok_value = [c, CHR ''=''],
                            tok_line = line s, tok_column = column s\<rparr>])"
proof -
  have pk: "peek_char s 1 = Some CHR ''=''"
    using peek_char_rest [of s] assms(1) by simp
  note cls = operator_char_class [OF assms(2)]
  from assms(2) consider "c = CHR ''=''" | "c = CHR ''!''" | "c = CHR ''<''" | "c = CHR ''>''"
    by auto
  then show ?thesis
  proof cases
    case 1
    with pk cls show ?thesis by (simp add: tokenize_step_def two_char_type_def)
  next
    case 2
    with pk cls show ?thesis by (simp add: tokenize_step_def two_char_type_def)
  next
    case 3
    with pk cls show ?thesis by (simp add: tokenize_step_def two_char_type_def)
  next
    case 4
    with pk cls show ?thesis by (simp add: tokenize_step_def two_char_type_def)
  qed
qed

text \<open>
  Claim C2. Two-character operators take precedence over single-character ones: when the
  loop of \<^verbatim>\<open>tokenize\<close> stands on one of \<open>=\<close>, \<open>!\<close>, \<open><\<close>, \<open>>\<close> and the next
  character is \<open>=\<close>, it appends the one matching two-character token, positioned at the
  first character, and advances twice. The input \<open>>=\<close> gives one GREATER_EQUAL token and
  the input \<open><=\<close> one LESS_EQUAL token, each followed by EOF only.
\<close>

theorem two_char_operators_first:
  assumes "rest s = c # CHR ''='' # w" "c \<in> {CHR ''='', CHR ''!'', CHR ''<'', CHR ''>''}"
  shows "tokenize_loop s tokens =
           tokenize_loop (advance (advance s))
             (tokens @ [\<lparr>tok_type = two_char_type c, tok_value = [c, CHR ''=''],
                         tok_line = line s, tok_column = column s\<rparr>]) \<and>
         rest (advance (advance s)) = w \<and>
         tokenize (Lexer_init ''>='') =
           Inr [\<lparr>tok_type = GREATER_EQUAL, tok_value = ''>='', tok_line = 1, tok_column = 1\<rparr>,
                \<lparr>tok_type = EOF, tok_value = [], tok_line = 1, tok_column = 3\<rparr>] \<and>
         tokenize (Lexer_init ''<='') =
           Inr [\<lparr>tok_type = LESS_EQUAL, tok_value = ''<='', tok_line = 1, tok_column = 1\<rparr>,
                \<lparr>tok_type = EOF, tok_value = [], tok_line = 1, tok_column = 3\<rparr>]"
proof -
  from assms(1) have cc: "current_char s = Some c" by (simp add: current_char_Some_iff)
  have "tokenize_loop s tokens =
           tokenize_loop (advance (advance s))
             (tokens @ [\<lparr>tok_type = two_char_type c, tok_value = [c, CHR ''=''],
                         tok_line = line s, tok_column = column s\<rparr>])"
    by (subst tokenize_loop.simps) (simp add: cc tokenize_step_two_char [OF assms])
  moreover from assms(1) have "rest (advance (advance s)) = w" by simp
  moreover have "tokenize (Lexer_init ''>='') =
           Inr [\<lparr>tok_type = GREATER_EQUAL, tok_value = ''>='', tok_line = 1, tok_column = 1\<rparr>,
                \<lparr>tok_type = EOF, tok_value = [], tok_line = 1, tok_column = 3\<rparr>]"
    by code_simp
  moreover have "tokenize (Lexer_init ''<='') =
           Inr [\<lparr>tok_type = LESS_EQUAL, tok_value = ''<='', tok_line = 1, tok_column = 1\<rparr>,
                \<lparr>tok_type = EOF, tok_value = [], tok_line = 1, tok_column = 3\<rparr>]"
    by code_simp
  ultimately show ?thesis by blast
qed

theorem two_char_operators_first_witness:
  "rest (Lexer_init ''!=1'') = CHR ''!'' # CHR ''='' # ''1'' \<and>
   CHR ''!'' \<in> {CHR ''='', CHR ''!'', CHR ''<'', CHR ''>''} \<and>
   tokenize_loop (Lexer_init ''!=1'') [] =
     tokenize_loop (advance (advance (Lexer_init ''!=1'')))
       ([] @ [\<lparr>tok_type = two_char_type CHR ''!'', tok_value = [CHR ''!'', CHR ''=''],
                tok_line = line (Lexer_init ''!=1''), tok_column = column (Lexer_init ''!=1'')\<rparr>])"
proof -
  have h1: "rest (Lexer_init ''!=1'') = CHR ''!'' # CHR ''='' # ''1''" by simp
  have h2: "CHR ''!'' \<in> {CHR ''='', CHR ''!'', CHR ''<'', CHR ''>''}" by simp
  from two_char_operators_first [OF h1 h2, of "[]"] h1 h2 show ?thesis by blast
qed

section \<open>The token sequence\<close>

lemma classify_word_cases:
  "classify_word w \<in> {IF, WHILE, FOR, PRINT, IDENTIFIER}"
  by (simp add: classify_word_def)

lemma single_char_tokens_cases:
  "single_char_tokens c = Some t \<Longrightarrow> t \<noteq> EOF \<and> t \<noteq> NEWLINE \<and> t \<noteq> STRING"
  by (simp add: single_char_tokens_def split: if_splits)

lemma two_char_type_cases:
  "two_char_type c \<noteq> EOF \<and> two_char_type c \<noteq> NEWLINE \<and> two_char_type c \<noteq> STRING"
  by (simp add: two_char_type_def)

lemma tokenize_step_single_char:
  assumes "\<not> (c = CHR '' '' \<or> c = TAB)" "c \<noteq> LF" "\<not> isdigit c" "\<not> (c = DQUOTE \<or> c = SQUOTE)"
    "\<not> (isalpha c \<or> c = CHR ''_'')"
    "\<not> (c \<in> {CHR ''='', CHR ''!'', CHR ''<'', CHR ''>''} \<and> peek_char s 1 = Some CHR ''='')"
  shows "tokenize_step s tokens c =
           (case single_char_tokens c of
              Some token_type \<Rightarrow>
                Inr (advance s, tokens @ [\<lparr>tok_type = token_type, tok_value = [c],
                                            tok_line = line s, tok_column = column s\<rparr>])
            | None \<Rightarrow> Inl (UnexpectedCharacter c (line s) (column s)))"
proof -
  show ?thesis
  proof (cases "peek_char s 1 = Some CHR ''=''")
    case True
    with assms(6) have "c \<noteq> CHR ''=''" "c \<noteq> CHR ''!''" "c \<noteq> CHR ''<''" "c \<noteq> CHR ''>''"
      by auto
    with assms(1-5) show ?thesis unfolding tokenize_step_def by simp
  next
    case False
    with assms(1-5) show ?thesis unfolding tokenize_step_def by simp
  qed
qed

text \<open>What one iteration of the loop appends, and what it consumes.\<close>

lemma tokenize_step_operator:
  assumes "\<not> (c = CHR '' '' \<or> c = TAB)" "c \<noteq> LF" "\<not> isdigit c" "\<not> (c = DQUOTE \<or> c = SQUOTE)"
    "\<not> (isalpha c \<or> c = CHR ''_'')"
    and r: "rest s = c # r" and st: "tokenize_step s tokens c = Inr (s', tokens')"
  shows "\<exists>tok. tokens' = tokens @ [tok] \<and> tok_type tok \<noteq> EOF \<and> tok_type tok \<noteq> NEWLINE \<and>
           tok_type tok \<noteq> STRING \<and> rest s = tok_value tok @ rest s'"
proof (cases "c \<in> {CHR ''='', CHR ''!'', CHR ''<'', CHR ''>''} \<and> peek_char s 1 = Some CHR ''=''")
  case True
  with r obtain w where w: "rest s = c # CHR ''='' # w"
    using peek_char_rest [of s] by (cases r) auto
  from True have c: "c \<in> {CHR ''='', CHR ''!'', CHR ''<'', CHR ''>''}" by blast
  from tokenize_step_two_char [OF w c, of tokens] st
  have "s' = advance (advance s)"
    "tokens' = tokens @ [\<lparr>tok_type = two_char_type c, tok_value = [c, CHR ''=''],
                            tok_line = line s, tok_column = column s\<rparr>]"
    by simp_all
  with w two_char_type_cases [of c] show ?thesis by simp
next
  case False
  note eq = tokenize_step_single_char [OF assms(1-5) False, of tokens]
  show ?thesis
  proof (cases "single_char_tokens c")
    case None
    with eq st show ?thesis by simp
  next
    case (Some ty)
    with eq st have "s' = advance s"
      "tokens' = tokens @ [\<lparr>tok_type = ty, tok_value = [c],
                             tok_line = line s, tok_column = column s\<rparr>]"
      by simp_all
    with r single_char_tokens_cases [OF Some] show ?thesis by simp
  qed
qed

lemma read_string_type:
  "read_string s = Inr (tok, s') \<Longrightarrow> tok_type tok = STRING"
  by (auto simp: read_string_def Let_def split: sum.splits if_splits)

lemma tokenize_step_no_EOF:
  assumes "tokenize_step s tokens c = Inr (s', tokens')" and cc: "current_char s = Some c"
  shows "tokens' = tokens \<or> (\<exists>tok. tokens' = tokens @ [tok] \<and> tok_type tok \<noteq> EOF)"
proof -
  consider (ws) "c = CHR '' '' \<or> c = TAB"
    | (nl) "\<not> (c = CHR '' '' \<or> c = TAB)" "c = LF"
    | (num) "\<not> (c = CHR '' '' \<or> c = TAB)" "c \<noteq> LF" "isdigit c"
    | (str) "\<not> (c = CHR '' '' \<or> c = TAB)" "c \<noteq> LF" "\<not> isdigit c" "c = DQUOTE \<or> c = SQUOTE"
    | (ident) "\<not> (c = CHR '' '' \<or> c = TAB)" "c \<noteq> LF" "\<not> isdigit c" "\<not> (c = DQUOTE \<or> c = SQUOTE)"
        "isalpha c \<or> c = CHR ''_''"
    | (other) "\<not> (c = CHR '' '' \<or> c = TAB)" "c \<noteq> LF" "\<not> isdigit c" "\<not> (c = DQUOTE \<or> c = SQUOTE)"
        "\<not> (isalpha c \<or> c = CHR ''_'')"
    by blast
  then show ?thesis
  proof cases
    case ws
    with assms(1) show ?thesis by (simp add: tokenize_step_def)
  next
    case nl
    with assms(1) show ?thesis by (auto simp: tokenize_step_def)
  next
    case num
    with assms(1) obtain tok where t: "read_number s = (tok, s')" "tokens' = tokens @ [tok]"
      by (auto simp: tokenize_step_def split: prod.splits)
    from read_number_rest [OF t(1)] have "tok_type tok = NUMBER" by simp
    with t(2) show ?thesis by simp
  next
    case str
    with assms(1) obtain tok where t: "read_string s = Inr (tok, s')" "tokens' = tokens @ [tok]"
      by (auto simp: tokenize_step_def split: prod.splits sum.splits)
    from read_string_type [OF t(1)] t(2) show ?thesis by simp
  next
    case ident
    with assms(1) obtain tok where t: "read_identifier s = (tok, s')" "tokens' = tokens @ [tok]"
      by (auto simp: tokenize_step_def split: prod.splits)
    from read_identifier_rest [OF t(1)]
    have "tok_type tok = classify_word (takeWhile ident_char (rest s))" by simp
    with classify_word_cases [of "takeWhile ident_char (rest s)"] have "tok_type tok \<noteq> EOF"
      by auto
    with t(2) show ?thesis by simp
  next
    case other
    from cc obtain r where "rest s = c # r" by (auto simp: current_char_Some_iff)
    from tokenize_step_operator [OF other this assms(1)] show ?thesis by blast
  qed
qed

lemma tokenize_loop_no_EOF:
  "tokenize_loop s tokens = Inr (s', tokens') \<Longrightarrow>
     \<exists>new. tokens' = tokens @ new \<and> (\<forall>t \<in> set new. tok_type t \<noteq> EOF)"
proof (induction s tokens rule: tokenize_loop.induct)
  case (1 s tokens)
  show ?case
  proof (cases "current_char s")
    case None
    with "1.prems" have "tokens' = tokens" by (subst (asm) tokenize_loop.simps) simp
    then show ?thesis by simp
  next
    case (Some c)
    show ?thesis
    proof (cases "tokenize_step s tokens c")
      case (Inl e)
      with "1.prems" Some show ?thesis by (subst (asm) tokenize_loop.simps) simp
    next
      case (Inr x)
      obtain s1 tokens1 where x: "x = (s1, tokens1)" by (cases x)
      with "1.prems" Some Inr have eq: "tokenize_loop s1 tokens1 = Inr (s', tokens')"
        by (subst (asm) tokenize_loop.simps) simp
      from "1.IH" [OF Some Inr x [symmetric] eq]
      obtain new where new: "tokens' = tokens1 @ new" "\<forall>t \<in> set new. tok_type t \<noteq> EOF"
        by blast
      from tokenize_step_no_EOF [of s tokens c s1 tokens1] Inr x Some
      consider "tokens1 = tokens" | tok where "tokens1 = tokens @ [tok]" "tok_type tok \<noteq> EOF"
        by auto
      then show ?thesis
      proof cases
        case 1
        with new show ?thesis by blast
      next
        case 2
        with new have "tokens' = tokens @ (tok # new)" "\<forall>t \<in> set (tok # new). tok_type t \<noteq> EOF"
          by simp_all
        then show ?thesis by blast
      qed
    qed
  qed
qed

text \<open>
  Claim C1. Whenever \<^verbatim>\<open>tokenize\<close> returns, the list is not empty, its last element is
  the EOF token, no element before the last is an EOF token, so the list holds exactly one,
  and on the empty text the result is the EOF token alone, at line 1, column 1.
\<close>

theorem tokenize_ends_with_single_EOF:
  "(tokenize (Lexer_init src) = Inr toks \<longrightarrow>
      toks \<noteq> [] \<and> tok_type (last toks) = EOF \<and>
      (\<forall>t \<in> set (butlast toks). tok_type t \<noteq> EOF) \<and>
      length (filter (\<lambda>t. tok_type t = EOF) toks) = 1) \<and>
   tokenize (Lexer_init []) =
     Inr [\<lparr>tok_type = EOF, tok_value = [], tok_line = 1, tok_column = 1\<rparr>]"
proof -
  have "toks \<noteq> [] \<and> tok_type (last toks) = EOF \<and>
      (\<forall>t \<in> set (butlast toks). tok_type t \<noteq> EOF) \<and>
      length (filter (\<lambda>t. tok_type t = EOF) toks) = 1"
    if a: "tokenize (Lexer_init src) = Inr toks"
  proof -
    from a obtain s' tokens where l: "tokenize_loop (Lexer_init src) [] = Inr (s', tokens)"
      and t: "toks = tokens @ [\<lparr>tok_type = EOF, tok_value = [], tok_line = line s',
                                tok_column = column s'\<rparr>]"
      by (auto simp: tokenize_def split: sum.splits)
    from tokenize_loop_no_EOF [OF l] have n: "\<forall>t \<in> set tokens. tok_type t \<noteq> EOF" by simp
    then have "filter (\<lambda>t. tok_type t = EOF) tokens = []" by (simp add: filter_empty_conv)
    with t n show ?thesis by simp
  qed
  moreover have "tokenize (Lexer_init []) =
     Inr [\<lparr>tok_type = EOF, tok_value = [], tok_line = 1, tok_column = 1\<rparr>]"
    by code_simp
  ultimately show ?thesis by blast
qed

theorem tokenize_ends_with_single_EOF_witness:
  "tokenize (Lexer_init ''x = 1'') =
     Inr [\<lparr>tok_type = IDENTIFIER, tok_value = ''x'', tok_line = 1, tok_column = 1\<rparr>,
          \<lparr>tok_type = ASSIGN, tok_value = ''='', tok_line = 1, tok_column = 3\<rparr>,
          \<lparr>tok_type = NUMBER, tok_value = ''1'', tok_line = 1, tok_column = 5\<rparr>,
          \<lparr>tok_type = EOF, tok_value = [], tok_line = 1, tok_column = 6\<rparr>] \<and>
   tok_type (last [\<lparr>tok_type = IDENTIFIER, tok_value = ''x'', tok_line = 1, tok_column = 1\<rparr>,
          \<lparr>tok_type = ASSIGN, tok_value = ''='', tok_line = 1, tok_column = 3\<rparr>,
          \<lparr>tok_type = NUMBER, tok_value = ''1'', tok_line = 1, tok_column = 5\<rparr>,
          \<lparr>tok_type = EOF, tok_value = [], tok_line = 1, tok_column = 6\<rparr>]) = EOF \<and>
   length (filter (\<lambda>t. tok_type t = EOF)
         [\<lparr>tok_type = IDENTIFIER, tok_value = ''x'', tok_line = 1, tok_column = 1\<rparr>,
          \<lparr>tok_type = ASSIGN, tok_value = ''='', tok_line = 1, tok_column = 3\<rparr>,
          \<lparr>tok_type = NUMBER, tok_value = ''1'', tok_line = 1, tok_column = 5\<rparr>,
          \<lparr>tok_type = EOF, tok_value = [], tok_line = 1, tok_column = 6\<rparr>]) = 1"
proof -
  have h: "tokenize (Lexer_init ''x = 1'') =
     Inr [\<lparr>tok_type = IDENTIFIER, tok_value = ''x'', tok_line = 1, tok_column = 1\<rparr>,
          \<lparr>tok_type = ASSIGN, tok_value = ''='', tok_line = 1, tok_column = 3\<rparr>,
          \<lparr>tok_type = NUMBER, tok_value = ''1'', tok_line = 1, tok_column = 5\<rparr>,
          \<lparr>tok_type = EOF, tok_value = [], tok_line = 1, tok_column = 6\<rparr>]"
    by code_simp
  from tokenize_ends_with_single_EOF [of "''x = 1''"] h show ?thesis by blast
qed

section \<open>Round trip\<close>

lemma tokenize_step_span:
  assumes "current_char s = Some c" "tokenize_step s tokens c = Inr (s', tokens')"
  shows "(tokens' = tokens \<and> (\<exists>ws. rest s = ws @ rest s' \<and> list_all hws ws)) \<or>
         (\<exists>tok w. tokens' = tokens @ [tok] \<and> source_span tok w \<and> rest s = w @ rest s')"
proof -
  from assms(1) obtain r where r: "rest s = c # r" by (auto simp: current_char_Some_iff)
  consider (ws) "c = CHR '' '' \<or> c = TAB"
    | (nl) "\<not> (c = CHR '' '' \<or> c = TAB)" "c = LF"
    | (num) "\<not> (c = CHR '' '' \<or> c = TAB)" "c \<noteq> LF" "isdigit c"
    | (str) "\<not> (c = CHR '' '' \<or> c = TAB)" "c \<noteq> LF" "\<not> isdigit c" "c = DQUOTE \<or> c = SQUOTE"
    | (ident) "\<not> (c = CHR '' '' \<or> c = TAB)" "c \<noteq> LF" "\<not> isdigit c" "\<not> (c = DQUOTE \<or> c = SQUOTE)"
        "isalpha c \<or> c = CHR ''_''"
    | (other) "\<not> (c = CHR '' '' \<or> c = TAB)" "c \<noteq> LF" "\<not> isdigit c" "\<not> (c = DQUOTE \<or> c = SQUOTE)"
        "\<not> (isalpha c \<or> c = CHR ''_'')"
    by blast
  then show ?thesis
  proof cases
    case ws
    with assms(2) have s': "s' = skip_whitespace s" "tokens' = tokens"
      by (simp_all add: tokenize_step_def)
    have "rest s = takeWhile hws (rest s) @ dropWhile hws (rest s)" by simp
    with s'(1) skip_whitespace_rest [of s]
    have a: "rest s = takeWhile hws (rest s) @ rest s'" by simp
    have b: "list_all hws (takeWhile hws (rest s))"
      unfolding list_all_iff by (blast dest: set_takeWhileD)
    from a b s'(2) show ?thesis by blast
  next
    case nl
    define tok where "tok = \<lparr>tok_type = NEWLINE, tok_value = [BACKSLASH, CHR ''n''],
        tok_line = line s, tok_column = column s\<rparr>"
    from nl assms(2) have a: "s' = advance s" "tokens' = tokens @ [tok]"
      by (simp_all add: tokenize_step_def tok_def)
    have b: "source_span tok [LF]" by (simp add: source_span_def literal_span_def tok_def)
    from r nl a(1) have c: "rest s = [LF] @ rest s'" by simp
    from a(2) b c show ?thesis by blast
  next
    case num
    with assms(2) obtain tok where t: "read_number s = (tok, s')" "tokens' = tokens @ [tok]"
      by (auto simp: tokenize_step_def split: prod.splits)
    from read_number_rest [OF t(1)]
    have a: "tok_type tok = NUMBER" "rest s = tok_value tok @ rest s'" by simp_all
    from a(1) have "source_span tok (tok_value tok)"
      by (simp add: source_span_def literal_span_def)
    with a(2) t(2) show ?thesis by blast
  next
    case str
    with assms(2) obtain tok where t: "read_string s = Inr (tok, s')" "tokens' = tokens @ [tok]"
      by (auto simp: tokenize_step_def split: prod.splits sum.splits)
    from read_string_consumed [OF assms(1) t(1)]
    obtain raw where raw: "rest s = c # raw @ c # rest s'"
        "decode_body c raw = Some (tok_value tok)" "tok_type tok = STRING"
      by blast
    from raw(2,3) str(4) have a: "source_span tok (c # raw @ [c])"
      by (simp add: source_span_def)
    from raw(1) have b: "rest s = (c # raw @ [c]) @ rest s'" by simp
    from a b t(2) show ?thesis by blast
  next
    case ident
    with assms(2) obtain tok where t: "read_identifier s = (tok, s')" "tokens' = tokens @ [tok]"
      by (auto simp: tokenize_step_def split: prod.splits)
    from read_identifier_rest [OF t(1)]
    have a: "tok_type tok = classify_word (takeWhile ident_char (rest s))"
        "tok_value tok = takeWhile ident_char (rest s)" "rest s' = dropWhile ident_char (rest s)"
      by simp_all
    from a(1) classify_word_cases [of "takeWhile ident_char (rest s)"]
    have ty: "tok_type tok \<noteq> NEWLINE" "tok_type tok \<noteq> STRING" by auto
    then have b: "source_span tok (tok_value tok)"
      by (simp add: source_span_def literal_span_def)
    from a(2,3) have c: "rest s = tok_value tok @ rest s'" by simp
    from b c t(2) show ?thesis by blast
  next
    case other
    from tokenize_step_operator [OF other r assms(2)]
    obtain tok where t: "tokens' = tokens @ [tok]" "tok_type tok \<noteq> NEWLINE"
        "tok_type tok \<noteq> STRING" "rest s = tok_value tok @ rest s'"
      by blast
    from t(2,3) have "source_span tok (tok_value tok)"
      by (simp add: source_span_def literal_span_def)
    with t(1,4) show ?thesis by blast
  qed
qed

lemma prepend_gap:
  assumes "list_all2 token_segment new segs" "list_all hws ws" "list_all hws gap"
  shows "\<exists>segs' gap'. list_all2 token_segment new segs' \<and> list_all hws gap' \<and>
           concat (map segment_text segs') @ gap' = ws @ concat (map segment_text segs) @ gap"
proof (cases segs)
  case Nil
  with assms have "list_all2 token_segment new []" "list_all hws (ws @ gap)" by simp_all
  with Nil show ?thesis by (metis append_Nil concat.simps(1) list.simps(8))
next
  case (Cons seg segs1)
  with assms(1) obtain tok new1 where new: "new = tok # new1" "token_segment tok seg"
      "list_all2 token_segment new1 segs1"
    by (auto simp: list_all2_Cons2)
  from new(2) assms(2) have "token_segment tok (ws @ fst seg, snd seg)"
    by (simp add: token_segment_def)
  with new(1,3) have a: "list_all2 token_segment new ((ws @ fst seg, snd seg) # segs1)" by simp
  have b: "concat (map segment_text ((ws @ fst seg, snd seg) # segs1)) @ gap =
      ws @ concat (map segment_text segs) @ gap"
    using Cons by (simp add: segment_text_def)
  from a b assms(3) show ?thesis by blast
qed

lemma tokenize_loop_segments:
  "tokenize_loop s tokens = Inr (s', tokens') \<Longrightarrow>
     \<exists>new segs gap. tokens' = tokens @ new \<and> list_all2 token_segment new segs \<and>
        list_all hws gap \<and> concat (map segment_text segs) @ gap = rest s"
proof (induction s tokens rule: tokenize_loop.induct)
  case (1 s tokens)
  show ?case
  proof (cases "current_char s")
    case None
    with "1.prems" have "tokens' = tokens" by (subst (asm) tokenize_loop.simps) simp
    moreover from None have "rest s = []" by (simp add: current_char_None_iff)
    ultimately have "tokens' = tokens @ [] \<and> list_all2 token_segment [] [] \<and>
        list_all hws [] \<and> concat (map segment_text []) @ [] = rest s"
      by simp
    then show ?thesis by blast
  next
    case (Some c)
    show ?thesis
    proof (cases "tokenize_step s tokens c")
      case (Inl e)
      with "1.prems" Some show ?thesis by (subst (asm) tokenize_loop.simps) simp
    next
      case (Inr x)
      obtain s1 tokens1 where x: "x = (s1, tokens1)" by (cases x)
      with "1.prems" Some Inr have eq: "tokenize_loop s1 tokens1 = Inr (s', tokens')"
        by (subst (asm) tokenize_loop.simps) simp
      from "1.IH" [OF Some Inr x [symmetric] eq]
      obtain new segs gap where ih: "tokens' = tokens1 @ new" "list_all2 token_segment new segs"
          "list_all hws gap" "concat (map segment_text segs) @ gap = rest s1"
        by blast
      from Inr x have st: "tokenize_step s tokens c = Inr (s1, tokens1)" by simp
      from tokenize_step_span [OF Some st]
      consider (skip) ws where "tokens1 = tokens" "rest s = ws @ rest s1" "list_all hws ws"
        | (emit) tok w where "tokens1 = tokens @ [tok]" "source_span tok w" "rest s = w @ rest s1"
        by blast
      then show ?thesis
      proof cases
        case skip
        from prepend_gap [OF ih(2) skip(3) ih(3)]
        obtain segs' gap' where p: "list_all2 token_segment new segs'" "list_all hws gap'"
            "concat (map segment_text segs') @ gap' = ws @ concat (map segment_text segs) @ gap"
          by blast
        from p(3) ih(4) skip(2) have "concat (map segment_text segs') @ gap' = rest s" by simp
        with p(1,2) ih(1) skip(1) show ?thesis by blast
      next
        case emit
        from emit(2) have "token_segment tok ([], w)" by (simp add: token_segment_def)
        with ih(2) have a: "list_all2 token_segment (tok # new) (([], w) # segs)" by simp
        from emit(3) ih(4) have b: "concat (map segment_text (([], w) # segs)) @ gap = rest s"
          by (simp add: segment_text_def)
        from ih(1) emit(1) have c: "tokens' = tokens @ (tok # new)" by simp
        from a b c ih(3) show ?thesis by blast
      qed
    qed
  qed
qed

text \<open>
  Claim C9. Whenever \<^verbatim>\<open>tokenize\<close> returns, the source text is the concatenation, token
  by token and in order, of a run of spaces and tabs followed by the token's source span:
  the run is what the tokens do not record, the span of a token that is not a string is
  its text (the line feed for a NEWLINE token, nothing for EOF), and the span of a STRING
  token is a quoted literal whose body decodes to its text.
\<close>

theorem tokenize_round_trip:
  assumes "tokenize (Lexer_init src) = Inr toks"
  shows "\<exists>segs. reconstructs toks segs src"
proof -
  from assms obtain s' tokens where l: "tokenize_loop (Lexer_init src) [] = Inr (s', tokens)"
    and t: "toks = tokens @ [\<lparr>tok_type = EOF, tok_value = [], tok_line = line s',
                              tok_column = column s'\<rparr>]"
    by (auto simp: tokenize_def split: sum.splits)
  from tokenize_loop_segments [OF l]
  obtain segs gap where a: "list_all2 token_segment tokens segs" "list_all hws gap"
      "concat (map segment_text segs) @ gap = src"
    by auto
  from a(2) have "token_segment \<lparr>tok_type = EOF, tok_value = [], tok_line = line s',
      tok_column = column s'\<rparr> (gap, [])"
    by (simp add: token_segment_def source_span_def literal_span_def)
  with a(1) t have "list_all2 token_segment toks (segs @ [(gap, [])])"
    by (simp add: list_all2_appendI)
  moreover from a(3) have "concat (map segment_text (segs @ [(gap, [])])) = src"
    by (simp add: segment_text_def)
  ultimately show ?thesis unfolding reconstructs_def by blast
qed

theorem tokenize_round_trip_witness:
  "tokenize (Lexer_init [CHR ''s'', CHR '' '', CHR ''='', TAB, SQUOTE, CHR ''a'', CHR '' '',
                         BACKSLASH, CHR ''n'', SQUOTE, LF]) =
     Inr [\<lparr>tok_type = IDENTIFIER, tok_value = ''s'', tok_line = 1, tok_column = 1\<rparr>,
          \<lparr>tok_type = ASSIGN, tok_value = ''='', tok_line = 1, tok_column = 3\<rparr>,
          \<lparr>tok_type = STRING, tok_value = [CHR ''a'', CHR '' '', LF], tok_line = 1,
            tok_column = 5\<rparr>,
          \<lparr>tok_type = NEWLINE, tok_value = [BACKSLASH, CHR ''n''], tok_line = 1,
            tok_column = 11\<rparr>,
          \<lparr>tok_type = EOF, tok_value = [], tok_line = 2, tok_column = 1\<rparr>] \<and>
   (\<exists>segs. reconstructs
      [\<lparr>tok_type = IDENTIFIER, tok_value = ''s'', tok_line = 1, tok_column = 1\<rparr>,
       \<lparr>tok_type = ASSIGN, tok_value = ''='', tok_line = 1, tok_column = 3\<rparr>,
       \<lparr>tok_type = STRING, tok_value = [CHR ''a'', CHR '' '', LF], tok_line = 1,
         tok_column = 5\<rparr>,
       \<lparr>tok_type = NEWLINE, tok_value = [BACKSLASH, CHR ''n''], tok_line = 1,
         tok_column = 11\<rparr>,
       \<lparr>tok_type = EOF, tok_value = [], tok_line = 2, tok_column = 1\<rparr>]
      segs
      [CHR ''s'', CHR '' '', CHR ''='', TAB, SQUOTE, CHR ''a'', CHR '' '',
       BACKSLASH, CHR ''n'', SQUOTE, LF]) \<and>
   reconstructs
      [\<lparr>tok_type = IDENTIFIER, tok_value = ''s'', tok_line = 1, tok_column = 1\<rparr>,
       \<lparr>tok_type = ASSIGN, tok_value = ''='', tok_line = 1, tok_column = 3\<rparr>,
       \<lparr>tok_type = STRING, tok_value = [CHR ''a'', CHR '' '', LF], tok_line = 1,
         tok_column = 5\<rparr>,
       \<lparr>tok_type = NEWLINE, tok_value = [BACKSLASH, CHR ''n''], tok_line = 1,
         tok_column = 11\<rparr>,
       \<lparr>tok_type = EOF, tok_value = [], tok_line = 2, tok_column = 1\<rparr>]
      [([], ''s''), ('' '', ''=''),
       ([TAB], [SQUOTE, CHR ''a'', CHR '' '', BACKSLASH, CHR ''n'', SQUOTE]),
       ([], [LF]), ([], [])]
      [CHR ''s'', CHR '' '', CHR ''='', TAB, SQUOTE, CHR ''a'', CHR '' '',
       BACKSLASH, CHR ''n'', SQUOTE, LF]"
proof -
  have h: "tokenize (Lexer_init [CHR ''s'', CHR '' '', CHR ''='', TAB, SQUOTE, CHR ''a'', CHR '' '',
                         BACKSLASH, CHR ''n'', SQUOTE, LF]) =
     Inr [\<lparr>tok_type = IDENTIFIER, tok_value = ''s'', tok_line = 1, tok_column = 1\<rparr>,
          \<lparr>tok_type = ASSIGN, tok_value = ''='', tok_line = 1, tok_column = 3\<rparr>,
          \<lparr>tok_type = STRING, tok_value = [CHR ''a'', CHR '' '', LF], tok_line = 1,
            tok_column = 5\<rparr>,
          \<lparr>tok_type = NEWLINE, tok_value = [BACKSLASH, CHR ''n''], tok_line = 1,
            tok_column = 11\<rparr>,
          \<lparr>tok_type = EOF, tok_value = [], tok_line = 2, tok_column = 1\<rparr>]"
    by code_simp
  have e: "reconstructs
      [\<lparr>tok_type = IDENTIFIER, tok_value = ''s'', tok_line = 1, tok_column = 1\<rparr>,
       \<lparr>tok_type = ASSIGN, tok_value = ''='', tok_line = 1, tok_column = 3\<rparr>,
       \<lparr>tok_type = STRING, tok_value = [CHR ''a'', CHR '' '', LF], tok_line = 1,
         tok_column = 5\<rparr>,
       \<lparr>tok_type = NEWLINE, tok_value = [BACKSLASH, CHR ''n''], tok_line = 1,
         tok_column = 11\<rparr>,
       \<lparr>tok_type = EOF, tok_value = [], tok_line = 2, tok_column = 1\<rparr>]
      [([], ''s''), ('' '', ''=''),
       ([TAB], [SQUOTE, CHR ''a'', CHR '' '', BACKSLASH, CHR ''n'', SQUOTE]),
       ([], [LF]), ([], [])]
      [CHR ''s'', CHR '' '', CHR ''='', TAB, SQUOTE, CHR ''a'', CHR '' '',
       BACKSLASH, CHR ''n'', SQUOTE, LF]"
    by code_simp
  from tokenize_round_trip [OF h] h e show ?thesis by blast
qed

section \<open>Positions and failures of the string reader\<close>

text \<open>
  Claim C3. Every token is to carry the line and column of its first character.
  \<^verbatim>\<open>read_string\<close> saves \<^verbatim>\<open>start_column\<close> on entry but builds its token with
  \<^verbatim>\<open>self.line\<close> read after the closing quote: for a literal that holds a line feed, the
  token opened on line 1, column 1 reports line 2.
\<close>

theorem string_token_line_after_consumption:
  "tokenize (Lexer_init [DQUOTE, CHR ''a'', LF, CHR ''b'', DQUOTE]) =
     Inr [\<lparr>tok_type = STRING, tok_value = [CHR ''a'', LF, CHR ''b''], tok_line = 2,
           tok_column = 1\<rparr>,
          \<lparr>tok_type = EOF, tok_value = [], tok_line = 2, tok_column = 3\<rparr>]"
  by code_simp

text \<open>
  Claim C4. \<^verbatim>\<open>tokenize\<close> is to return the tokens or fail with one of the two
  \<^verbatim>\<open>SyntaxError\<close>s. On a string literal cut off right after a backslash the escape
  branch of \<^verbatim>\<open>read_string\<close> advances to the end of the text and appends
  \<^verbatim>\<open>current_char()\<close>, which is \<^verbatim>\<open>None\<close>: a \<^verbatim>\<open>TypeError\<close>.
\<close>

theorem trailing_backslash_TypeError:
  "tokenize (Lexer_init [DQUOTE, CHR ''a'', CHR ''b'', CHR ''c'', BACKSLASH]) = Inl TypeError"
  by code_simp

text \<open>
  Claim C5. An unterminated string literal is to fail with the line and column of its
  opening quote. The message of \<^verbatim>\<open>read_string\<close> prints the saved \<^verbatim>\<open>start_column\<close>
  beside \<^verbatim>\<open>self.line\<close> at the end of the input: a literal opened on line 1 that runs
  over a line feed is reported on line 2.
\<close>

theorem unterminated_string_reports_last_line:
  "tokenize (Lexer_init [DQUOTE, CHR ''a'', LF, CHR ''b'']) = Inl (UnterminatedString 2 1)"
  by code_simp

end
